theory Spec2Isabelle
  imports Main "HOL-Library.Word"
begin

section \<open>JavaScript strings\<close>

text \<open>
  A JavaScript string is a sequence of UTF-16 code units, and \<open>csvText[i]\<close>,
  \<open>csvText.length\<close> and \<open>trim()\<close> all work on code units. A code unit is a 16-bit
  word here, a string a list of them. \<open>js\<close> embeds an ASCII literal.
\<close>

type_synonym jschar = "16 word"
type_synonym jsstring = "jschar list"

definition js :: "string \<Rightarrow> jsstring" where
  "js s = map of_char s"

abbreviation QUOTE :: jschar where "QUOTE \<equiv> 0x22"
abbreviation COMMA :: jschar where "COMMA \<equiv> 0x2C"
abbreviation LF :: jschar where "LF \<equiv> 0x0A"
abbreviation CR :: jschar where "CR \<equiv> 0x0D"

text \<open>
  \<open>String.prototype.trim\<close> removes the code units of ECMAScript's WhiteSpace and
  LineTerminator productions from both ends: TAB, LF, VT, FF, CR, SP, NBSP, U+1680,
  U+2000 to U+200A, U+2028, U+2029, U+202F, U+205F, U+3000 and U+FEFF.
\<close>

definition is_ws :: "jschar \<Rightarrow> bool" where
  "is_ws c \<longleftrightarrow>
     (0x09 \<le> c \<and> c \<le> 0x0D) \<or> c = 0x20 \<or> c = 0xA0 \<or> c = 0x1680 \<or>
     (0x2000 \<le> c \<and> c \<le> 0x200A) \<or> c = 0x2028 \<or> c = 0x2029 \<or> c = 0x202F \<or>
     c = 0x205F \<or> c = 0x3000 \<or> c = 0xFEFF"

definition trim :: "jsstring \<Rightarrow> jsstring" where
  "trim s = rev (dropWhile is_ws (rev (dropWhile is_ws s)))"

text \<open>\<open>Array.prototype.join\<close> on an array of strings.\<close>

fun join :: "jsstring \<Rightarrow> jsstring list \<Rightarrow> jsstring" where
  "join sep [] = []"
| "join sep [x] = x"
| "join sep (x # y # ys) = x @ sep @ join sep (y # ys)"

text \<open>The decimal rendering of a non-negative integer in a template literal.\<close>

fun decimal :: "nat \<Rightarrow> jsstring" where
  "decimal n = (if n < 10 then [of_nat (48 + n)]
                else decimal (n div 10) @ [of_nat (48 + n mod 10)])"

section \<open>The table (editor.js)\<close>

text \<open>
  \<open>{ id: index, values: record }\<close> and \<open>{ headers, rows }\<close>. Row ids are JavaScript
  numbers that only ever hold small integers (an index, or a maximum plus one), so
  they are integers here. The field \<open>id\<close> is named \<open>rid\<close>.
\<close>

record row =
  rid :: int
  "values" :: "jsstring list"

record table =
  headers :: "jsstring list"
  rows :: "row list"

subsection \<open>parseCSVRecords\<close>

text \<open>
  The \<open>while (i < csvText.length)\<close> loop only moves \<open>i\<close> forward, by one or by two,
  and only reads \<open>csvText[i]\<close> and \<open>csvText[i + 1]\<close>: the recursion runs over the
  text from position \<open>i\<close> on. \<open>csvText[i + 1]\<close> past the end is \<open>undefined\<close>, which
  equals no character. The other arguments are the loop's variables \<open>inQuotes\<close>,
  \<open>currentField\<close>, \<open>currentRecord\<close> and \<open>records\<close>. The empty text is the code after
  the loop. A string is truthy when it is not empty.
\<close>

fun parse_loop ::
  "jsstring \<Rightarrow> bool \<Rightarrow> jsstring \<Rightarrow> jsstring list \<Rightarrow> jsstring list list \<Rightarrow> jsstring list list"
where
  "parse_loop [] inQuotes currentField currentRecord records =
     (if trim currentField \<noteq> [] \<or> length currentRecord > 0 then
        (if list_ex (\<lambda>field. length field > 0) (currentRecord @ [trim currentField])
         then records @ [currentRecord @ [trim currentField]]
         else records)
      else records)"
| "parse_loop (c # text) inQuotes currentField currentRecord records =
     (if c = QUOTE then
        (case text of
           c' # text' \<Rightarrow>
             if inQuotes \<and> c' = QUOTE
             then parse_loop text' inQuotes (currentField @ [QUOTE]) currentRecord records
             else parse_loop text (\<not> inQuotes) currentField currentRecord records
         | [] \<Rightarrow> parse_loop text (\<not> inQuotes) currentField currentRecord records)
      else if \<not> inQuotes \<and> c = COMMA then
        parse_loop text inQuotes [] (currentRecord @ [trim currentField]) records
      else if \<not> inQuotes \<and> (c = LF \<or> c = CR) then
        (let (currentField', currentRecord', records') =
           (if trim currentField \<noteq> [] \<or> length currentRecord > 0 then
              ([], [],
               if list_ex (\<lambda>field. length field > 0) (currentRecord @ [trim currentField])
               then records @ [currentRecord @ [trim currentField]]
               else records)
            else (currentField, currentRecord, records))
         in
           (case text of
              c' # text' \<Rightarrow>
                if c = CR \<and> c' = LF
                then parse_loop text' inQuotes currentField' currentRecord' records'
                else parse_loop text inQuotes currentField' currentRecord' records'
            | [] \<Rightarrow> parse_loop text inQuotes currentField' currentRecord' records'))
      else parse_loop text inQuotes (currentField @ [c]) currentRecord records)"

definition parseCSVRecords :: "jsstring \<Rightarrow> jsstring list list" where
  "parseCSVRecords csvText = parse_loop csvText False [] [] []"

subsection \<open>parseCSV\<close>

text \<open>
  \<open>while (record.length < headers.length) record.push('')\<close> appends the missing
  empty strings and leaves a record that is already long enough as it is.
\<close>

definition pad_record :: "nat \<Rightarrow> jsstring list \<Rightarrow> jsstring list" where
  "pad_record n record = record @ replicate (n - length record) []"

definition parseCSV :: "jsstring \<Rightarrow> table" where
  "parseCSV csvText =
     (case parseCSVRecords csvText of
        [] \<Rightarrow> \<lparr>headers = [], rows = []\<rparr>
      | hdrs # rest \<Rightarrow>
          \<lparr>headers = hdrs,
           rows = map (\<lambda>(index, record).
                         \<lparr>rid = int index, values = pad_record (length hdrs) record\<rparr>)
                      (enumerate 0 rest)\<rparr>)"

subsection \<open>generateCSVContent\<close>

text \<open>
  \<open>String(field)\<close> of a string is the string. A field with a comma, a quote, a line
  feed or a carriage return is wrapped in quotes, its quotes doubled.
\<close>

definition escapeCSVField :: "jsstring \<Rightarrow> jsstring" where
  "escapeCSVField field =
     (if COMMA \<in> set field \<or> QUOTE \<in> set field \<or> LF \<in> set field \<or> CR \<in> set field
      then [QUOTE] @ concat (map (\<lambda>c. if c = QUOTE then [QUOTE, QUOTE] else [c]) field) @ [QUOTE]
      else field)"

definition generateCSVContent :: "table \<Rightarrow> jsstring" where
  "generateCSVContent data =
     foldl (\<lambda>csvContent row.
              csvContent @ join [COMMA] (map escapeCSVField (values row)) @ [LF])
           (join [COMMA] (map escapeCSVField (headers data)) @ [LF])
           (rows data)"

subsection \<open>The editor state\<close>

text \<open>
  The module variables \<open>originalData\<close>, \<open>currentData\<close> and \<open>hasChanges\<close>. Both tables
  are deep copies (\<open>JSON.parse(JSON.stringify(data))\<close>), so they share no row object,
  and a write to a row of \<open>currentData\<close> leaves \<open>originalData\<close> alone.
\<close>

record editor =
  originalData :: table
  currentData :: table
  hasChanges :: bool

text \<open>
  The state before a file is loaded. The module starts with \<open>{}\<close> for both tables,
  which have no rows yet; \<open>loadFileData\<close> replaces both.
\<close>

definition initial_editor :: editor where
  "initial_editor =
     \<lparr>originalData = \<lparr>headers = [], rows = []\<rparr>,
      currentData = \<lparr>headers = [], rows = []\<rparr>,
      hasChanges = False\<rparr>"

definition loadFileData :: "jsstring \<Rightarrow> editor \<Rightarrow> editor" where
  "loadFileData csvText s =
     s\<lparr>originalData := parseCSV csvText, currentData := parseCSV csvText\<rparr>"

text \<open>
  \<open>checkForChanges\<close> compares the JSON texts of the two tables. Both are objects with
  the keys \<open>headers\<close>, \<open>rows\<close>, \<open>id\<close>, \<open>values\<close> in the same order, holding integers and
  strings, on which \<open>JSON.stringify\<close> is injective: the texts differ exactly when the
  tables do.
\<close>

definition checkForChanges :: "editor \<Rightarrow> editor" where
  "checkForChanges s = s\<lparr>hasChanges := (originalData s \<noteq> currentData s)\<rparr>"

subsection \<open>handleCellChange\<close>

text \<open>
  \<open>currentData.rows.find(r => r.id === rowId)\<close> is the first row with that id, and
  \<open>row.values[colIndex] = newValue\<close> writes into that row object, in place. A write
  at \<open>colIndex = values.length\<close> appends. A write beyond that leaves holes in the
  array, which are no strings: there the model gives \<open>None\<close>. The renderer emits one
  input per value, so the handler receives \<open>colIndex < values.length\<close>.
\<close>

fun update_found :: "(row \<Rightarrow> bool) \<Rightarrow> (row \<Rightarrow> row) \<Rightarrow> row list \<Rightarrow> row list" where
  "update_found P f [] = []"
| "update_found P f (r # rs) = (if P r then f r # rs else r # update_found P f rs)"

definition array_set :: "jsstring list \<Rightarrow> nat \<Rightarrow> jsstring \<Rightarrow> jsstring list" where
  "array_set vs i v = (if i < length vs then vs[i := v] else vs @ [v])"

definition handleCellChange :: "int \<Rightarrow> nat \<Rightarrow> jsstring \<Rightarrow> editor \<Rightarrow> editor option" where
  "handleCellChange rowId colIndex newValue s =
     (case find (\<lambda>r. rid r = rowId) (rows (currentData s)) of
        None \<Rightarrow> Some s
      | Some row \<Rightarrow>
          if colIndex \<le> length (values row) then
            Some (checkForChanges
              (s\<lparr>currentData := (currentData s)\<lparr>rows :=
                   update_found (\<lambda>r. rid r = rowId)
                     (\<lambda>r. r\<lparr>values := array_set (values r) colIndex newValue\<rparr>)
                     (rows (currentData s))\<rparr>\<rparr>))
          else None)"

subsection \<open>addRow and deleteSelectedRow\<close>

text \<open>\<open>Math.max(...currentData.rows.map(r => r.id), -1) + 1\<close>.\<close>

definition newRowId :: "table \<Rightarrow> int" where
  "newRowId t = Max (set (map rid (rows t) @ [-1])) + 1"

definition addRow :: "editor \<Rightarrow> editor" where
  "addRow s =
     (let newRow = \<lparr>rid = newRowId (currentData s),
                     values = replicate (length (headers (currentData s))) []\<rparr>
      in checkForChanges
           (s\<lparr>currentData := (currentData s)\<lparr>rows := rows (currentData s) @ [newRow]\<rparr>\<rparr>))"

text \<open>
  The ids of the checked rows and the answer to \<open>confirm\<close> are the inputs of
  \<open>deleteSelectedRow\<close>.
\<close>

definition deleteSelectedRow :: "int list \<Rightarrow> bool \<Rightarrow> editor \<Rightarrow> editor" where
  "deleteSelectedRow selectedRowIds confirmed s =
     (if length selectedRowIds = 0 then s
      else if \<not> confirmed then s
      else checkForChanges
             (s\<lparr>currentData := (currentData s)\<lparr>rows :=
                  filter (\<lambda>row. rid row \<notin> set selectedRowIds) (rows (currentData s))\<rparr>\<rparr>))"

text \<open>An editing session: a loaded file, then a sequence of the two operations.\<close>

datatype edit_op = AddRow | DeleteSelectedRow "int list" bool

fun apply_op :: "editor \<Rightarrow> edit_op \<Rightarrow> editor" where
  "apply_op s AddRow = addRow s"
| "apply_op s (DeleteSelectedRow selectedRowIds confirmed) =
     deleteSelectedRow selectedRowIds confirmed s"

definition session :: "jsstring \<Rightarrow> editor \<Rightarrow> edit_op list \<Rightarrow> editor" where
  "session csvText s0 ops = foldl apply_op (loadFileData csvText s0) ops"

definition row_ids :: "editor \<Rightarrow> int list" where
  "row_ids s = map rid (rows (currentData s))"

text \<open>Every id some row of the current table held at some moment of the session so far.\<close>

fun ids_held :: "editor \<Rightarrow> edit_op list \<Rightarrow> int list" where
  "ids_held s [] = row_ids s"
| "ids_held s (x # ops) = row_ids s @ ids_held (apply_op s x) ops"

subsection \<open>calculateChanges\<close>

text \<open>
  Three \<open>forEach\<close> loops push onto \<open>changes\<close>. \<open>currentData.rows.indexOf(row)\<close> looks the
  row object up by identity, and every row object stands once in the array: it is the
  position of the row. \<open>JSON.stringify\<close> is injective on arrays of strings, so the two
  texts differ exactly when the value sequences do. The two tables read are the
  module's \<open>originalData\<close> and \<open>currentData\<close>.
\<close>

datatype change_type = added | deleted | modified

record change =
  ctype :: change_type
  description :: jsstring

text \<open>
  The template literals of the descriptions:
  \<open>`Row ${currentData.rows.indexOf(row) + 1}: ${row.values.slice(0, 2).join(', ')}...`\<close>
  for an added and for a modified row, and
  \<open>`Row with data: ${row.values.slice(0, 2).join(', ')}...`\<close> for a deleted one.
\<close>

abbreviation row_label :: "nat \<Rightarrow> row \<Rightarrow> jsstring" where
  "row_label index row \<equiv>
     js ''Row '' @ decimal (index + 1) @ js '': '' @
     join (js '', '') (take 2 (values row)) @ js ''...''"

abbreviation data_label :: "row \<Rightarrow> jsstring" where
  "data_label row \<equiv>
     js ''Row with data: '' @ join (js '', '') (take 2 (values row)) @ js ''...''"

definition calculateChanges :: "table \<Rightarrow> table \<Rightarrow> change list" where
  "calculateChanges original current =
     (let originalRowIds = set (map rid (rows original));
          currentRowIds = set (map rid (rows current));
          changes1 =
            foldl (\<lambda>changes (index, row).
                     if rid row \<notin> originalRowIds
                     then changes @ [\<lparr>ctype = added, description = row_label index row\<rparr>]
                     else changes)
                  [] (enumerate 0 (rows current));
          changes2 =
            foldl (\<lambda>changes row.
                     if rid row \<notin> currentRowIds
                     then changes @ [\<lparr>ctype = deleted, description = data_label row\<rparr>]
                     else changes)
                  changes1 (rows original)
      in
        foldl (\<lambda>changes (index, currentRow).
                 (case find (\<lambda>r. rid r = rid currentRow) (rows original) of
                    None \<Rightarrow> changes
                  | Some originalRow \<Rightarrow>
                      if values currentRow \<noteq> values originalRow
                      then changes @
                        [\<lparr>ctype = modified, description = row_label index currentRow\<rparr>]
                      else changes))
              changes2 (enumerate 0 (rows current)))"

section \<open>The service worker (sw.js)\<close>

text \<open>
  A request is its URL and its destination, a response its status, type and body. A
  cache bucket is a list of entries keyed by request URL, the cache storage a list of
  named buckets in the order of their creation. \<open>caches.match\<close> searches the buckets in
  that order, \<open>caches.open\<close> creates a missing bucket, \<open>cache.put\<close> replaces the entry
  of its key. The checks a browser's cache makes on its own (request method, URL scheme,
  \<open>Vary\<close>) are no part of the source.
\<close>

record request =
  url :: string
  destination :: string

record response =
  status :: nat
  rtype :: string
  body :: string

type_synonym cache = "(string \<times> response) list"
type_synonym cache_storage = "(string \<times> cache) list"

definition CACHE_NAME :: string where
  "CACHE_NAME = ''unmessify-v20250901''"

fun caches_match :: "string \<Rightarrow> cache_storage \<Rightarrow> response option" where
  "caches_match key [] = None"
| "caches_match key ((name, c) # st) =
     (case map_of c key of Some r \<Rightarrow> Some r | None \<Rightarrow> caches_match key st)"

definition caches_open :: "string \<Rightarrow> cache_storage \<Rightarrow> cache_storage" where
  "caches_open name st = (if name \<in> set (map fst st) then st else st @ [(name, [])])"

definition cache_put :: "string \<Rightarrow> response \<Rightarrow> cache \<Rightarrow> cache" where
  "cache_put key r c = filter (\<lambda>(k, _). k \<noteq> key) c @ [(key, r)]"

definition caches_put :: "string \<Rightarrow> string \<Rightarrow> response \<Rightarrow> cache_storage \<Rightarrow> cache_storage" where
  "caches_put name key r st =
     map (\<lambda>(n, c). if n = name then (n, cache_put key r c) else (n, c)) (caches_open name st)"

definition caches_keys :: "cache_storage \<Rightarrow> string list" where
  "caches_keys st = map fst st"

definition caches_delete :: "string \<Rightarrow> cache_storage \<Rightarrow> cache_storage" where
  "caches_delete name st = filter (\<lambda>(n, _). n \<noteq> name) st"

text \<open>
  The fetch listener. \<open>fetch(event.request)\<close> either rejects or resolves with a value
  the handler tests with \<open>!response\<close>. The result is what \<open>respondWith\<close> receives
  (\<open>None\<close> for \<open>undefined\<close>: the request fails) and the cache storage once the
  \<open>cache.put\<close> the handler started has settled.
\<close>

datatype fetch_result = Rejected | Resolved "response option"

definition fetch_listener ::
  "cache_storage \<Rightarrow> request \<Rightarrow> fetch_result \<Rightarrow> response option \<times> cache_storage" where
  "fetch_listener st req net =
     (case caches_match (url req) st of
        Some response \<Rightarrow> (Some response, st)
      | None \<Rightarrow>
          (case net of
             Resolved None \<Rightarrow> (None, st)
           | Resolved (Some response) \<Rightarrow>
               if status response \<noteq> 200 \<or> rtype response \<noteq> ''basic''
               then (Some response, st)
               else (Some response, caches_put CACHE_NAME (url req) response st)
           | Rejected \<Rightarrow>
               if destination req = ''document''
               then (caches_match ''/index.html'' st, st)
               else (None, st)))"

text \<open>
  The activate listener, with the module constant \<open>CACHE_NAME\<close> as a parameter: every
  name of \<open>caches.keys()\<close> that differs from it is deleted.
\<close>

definition activate_listener :: "string \<Rightarrow> cache_storage \<Rightarrow> cache_storage" where
  "activate_listener cache_name st =
     fold (\<lambda>cacheName st'. if cacheName \<noteq> cache_name then caches_delete cacheName st' else st')
          (caches_keys st) st"

section \<open>Vocabulary of the properties\<close>

text \<open>A string with no white space at either end.\<close>

definition trimmed :: "jsstring \<Rightarrow> bool" where
  "trimmed s \<longleftrightarrow> s = [] \<or> \<not> (is_ws (hd s) \<or> is_ws (last s))"

definition all_trimmed :: "jsstring list \<Rightarrow> bool" where
  "all_trimmed fs \<longleftrightarrow> (\<forall>f \<in> set fs. trimmed f)"

text \<open>The value sequence a table holds under a row id, if it has a row with that id.\<close>

definition values_of :: "table \<Rightarrow> int \<Rightarrow> jsstring list option" where
  "values_of t i = map_option values (find (\<lambda>r. rid r = i) (rows t))"

text \<open>The rows with their ids replaced by their positions, as parsing numbers them.\<close>

definition renumber :: "row list \<Rightarrow> row list" where
  "renumber rs = map (\<lambda>(index, r). r\<lparr>rid := int index\<rparr>) (enumerate 0 rs)"

section \<open>One step of the parser\<close>

text \<open>
  What one iteration of the loop does, by the character read and the quote flag. The
  recursion equations are used through these steps from here on.
\<close>

lemma parse_loop_quote_escaped:
  "parse_loop (QUOTE # QUOTE # t) True f r R = parse_loop t True (f @ [QUOTE]) r R"
  by simp

lemma parse_loop_quote_close:
  "t = [] \<or> hd t \<noteq> QUOTE \<Longrightarrow> parse_loop (QUOTE # t) True f r R = parse_loop t False f r R"
  by (cases t) simp_all

lemma parse_loop_quote_open:
  "parse_loop (QUOTE # t) False f r R = parse_loop t True f r R"
  by (cases t) simp_all

lemma parse_loop_comma:
  "parse_loop (COMMA # t) False f r R = parse_loop t False [] (r @ [trim f]) R"
  by simp

lemma parse_loop_regular_quoted:
  "c \<noteq> QUOTE \<Longrightarrow> parse_loop (c # t) True f r R = parse_loop t True (f @ [c]) r R"
  by simp

lemma parse_loop_regular:
  "c \<noteq> QUOTE \<Longrightarrow> c \<noteq> COMMA \<Longrightarrow> c \<noteq> LF \<Longrightarrow> c \<noteq> CR \<Longrightarrow>
   parse_loop (c # t) False f r R = parse_loop t False (f @ [c]) r R"
  by simp

lemma parse_loop_newline:
  "c = LF \<or> c = CR \<Longrightarrow>
   parse_loop (c # t) False f r R =
     parse_loop (if c = CR \<and> t \<noteq> [] \<and> hd t = LF then tl t else t) False
       (if trim f \<noteq> [] \<or> r \<noteq> [] then [] else f)
       (if trim f \<noteq> [] \<or> r \<noteq> [] then [] else r)
       (if (trim f \<noteq> [] \<or> r \<noteq> []) \<and> (\<exists>x \<in> set (r @ [trim f]). x \<noteq> [])
        then R @ [r @ [trim f]] else R)"
  apply (subst parse_loop.simps(2))
  apply (cases t)
   apply (auto simp add: Let_def list_ex_iff simp del: parse_loop.simps)
  done

declare parse_loop.simps [simp del]
declare decimal.simps [simp del]

section \<open>Loading the example file\<close>

text \<open>
  C9. Parsing the text \<open>Date,RoomNumber\<newline>1,101 - 150\<newline>2,\<newline>\<close> gives the headers
  Date and RoomNumber and exactly two rows, with the values 1, 101 - 150 and 2, empty:
  the record with one non-empty field is kept and its trailing empty field too.
\<close>

theorem parseCSV_example:
  "parseCSV (js ''Date,RoomNumber\<newline>1,101 - 150\<newline>2,\<newline>'') =
     \<lparr>headers = [js ''Date'', js ''RoomNumber''],
      rows = [\<lparr>rid = 0, values = [js ''1'', js ''101 - 150'']\<rparr>,
              \<lparr>rid = 1, values = [js ''2'', js '''']\<rparr>]\<rparr>"
  by (simp add: parseCSV_def parseCSVRecords_def parse_loop.simps js_def trim_def is_ws_def
      pad_record_def enumerate_eq_zip upt_rec)

section \<open>Rows longer than the header\<close>

text \<open>
  C2. The claim is that every row of a parsed table has as many values as there are
  headers. On the text \<open>a\<newline>1,2\<newline>\<close> the header has one column and the row keeps its
  two values: \<open>parseCSV\<close> pads a short record and does not cut a long one.
\<close>

theorem parseCSV_keeps_long_record:
  "parseCSV (js ''a\<newline>1,2\<newline>'') =
     \<lparr>headers = [js ''a''], rows = [\<lparr>rid = 0, values = [js ''1'', js ''2'']\<rparr>]\<rparr>"
  by (simp add: parseCSV_def parseCSVRecords_def parse_loop.simps js_def trim_def is_ws_def
      pad_record_def enumerate_eq_zip upt_rec)

section \<open>Adding a row\<close>

text \<open>
  C5. \<open>addRow\<close> appends exactly one row to the current table, whose id is the maximum
  of the existing ids and -1, plus one, and whose values are as many empty strings as
  there are headers; it is a total function, the original table is untouched and
  \<open>hasChanges\<close> is recomputed. On the ids 0, 1, 2 the new id is 3, and on the ids 0, 2
  it is 3 as well.
\<close>

theorem addRow_appends_fresh_row:
  "currentData (addRow s) =
     (currentData s)\<lparr>rows := rows (currentData s) @
        [\<lparr>rid = Max (insert (-1) (set (row_ids s))) + 1,
          values = replicate (length (headers (currentData s))) []\<rparr>]\<rparr>
   \<and> originalData (addRow s) = originalData s
   \<and> hasChanges (addRow s) = (originalData s \<noteq> currentData (addRow s))
   \<and> row_ids (addRow (s\<lparr>currentData := \<lparr>headers = hs, rows =
          [\<lparr>rid = 0, values = a\<rparr>, \<lparr>rid = 1, values = b\<rparr>, \<lparr>rid = 2, values = c\<rparr>]\<rparr>\<rparr>))
       = [0, 1, 2, 3]
   \<and> row_ids (addRow (s\<lparr>currentData := \<lparr>headers = hs, rows =
          [\<lparr>rid = 0, values = a\<rparr>, \<lparr>rid = 2, values = c\<rparr>]\<rparr>\<rparr>))
       = [0, 2, 3]"
  by (simp add: addRow_def checkForChanges_def newRowId_def row_ids_def Let_def)

section \<open>The activate listener\<close>

lemma fold_caches_delete:
  "fold (\<lambda>cacheName st'. if cacheName \<noteq> tag then caches_delete cacheName st' else st') names st
     = filter (\<lambda>(n, c). n = tag \<or> n \<notin> set names) st"
proof (induction names arbitrary: st)
  case Nil
  show ?case by simp
next
  case (Cons a names)
  show ?case
    by (auto simp: Cons.IH caches_delete_def intro!: filter_cong)
qed

lemma activate_listener_filter:
  "activate_listener tag st = filter (\<lambda>(n, c). n = tag) st"
  unfolding activate_listener_def fold_caches_delete caches_keys_def
  by (rule filter_cong) force+

text \<open>
  C7. After the activate phase the storage holds exactly the buckets named like the
  current version tag, unchanged: a bucket that existed before is deleted if and only
  if its name differs from the tag. With the tag app-v2, the bucket app-v1 is deleted
  and the bucket app-v2 is kept.
\<close>

theorem activate_deletes_other_generations:
  "activate_listener tag st = filter (\<lambda>(n, c). n = tag) st
   \<and> (\<forall>n \<in> set (caches_keys st).
        n \<notin> set (caches_keys (activate_listener tag st)) \<longleftrightarrow> n \<noteq> tag)
   \<and> activate_listener ''app-v2'' [(''app-v1'', c1), (''app-v2'', c2)] = [(''app-v2'', c2)]"
  by (auto simp: activate_listener_filter caches_keys_def)

theorem activate_deletes_other_generations_witness:
  "''unmessify-v20250801'' \<in> set (caches_keys
       [(''unmessify-v20250801'', [(''/'', \<lparr>status = 200, rtype = ''basic'', body = ''old''\<rparr>)]),
        (CACHE_NAME, [(''/'', \<lparr>status = 200, rtype = ''basic'', body = ''new''\<rparr>)])])
   \<and> ''unmessify-v20250801'' \<notin> set (caches_keys (activate_listener CACHE_NAME
       [(''unmessify-v20250801'', [(''/'', \<lparr>status = 200, rtype = ''basic'', body = ''old''\<rparr>)]),
        (CACHE_NAME, [(''/'', \<lparr>status = 200, rtype = ''basic'', body = ''new''\<rparr>)])]))
   \<and> activate_listener CACHE_NAME
       [(''unmessify-v20250801'', [(''/'', \<lparr>status = 200, rtype = ''basic'', body = ''old''\<rparr>)]),
        (CACHE_NAME, [(''/'', \<lparr>status = 200, rtype = ''basic'', body = ''new''\<rparr>)])]
     = [(CACHE_NAME, [(''/'', \<lparr>status = 200, rtype = ''basic'', body = ''new''\<rparr>)])]"
  using activate_deletes_other_generations [of CACHE_NAME
       "[(''unmessify-v20250801'', [(''/'', \<lparr>status = 200, rtype = ''basic'', body = ''old''\<rparr>)]),
         (CACHE_NAME, [(''/'', \<lparr>status = 200, rtype = ''basic'', body = ''new''\<rparr>)])]"]
  by (simp add: caches_keys_def CACHE_NAME_def)

section \<open>The fetch listener\<close>

lemma map_of_filter_key: "map_of (filter (\<lambda>(k, _). k \<noteq> key) c) key = None"
  by (induction c) auto

lemma map_of_cache_put: "map_of (cache_put key r c) key = Some r"
  by (simp add: cache_put_def map_add_def map_of_filter_key)

lemma caches_match_put_open:
  "caches_match key st = None \<Longrightarrow> name \<in> set (map fst st) \<Longrightarrow>
   caches_match key (map (\<lambda>(n, c). if n = name then (n, cache_put key r c) else (n, c)) st)
     = Some r"
proof (induction st)
  case Nil
  then show ?case by simp
next
  case (Cons a st)
  obtain n c where a: "a = (n, c)" by (cases a)
  show ?case
  proof (cases "n = name")
    case True
    then show ?thesis by (simp add: a map_of_cache_put)
  next
    case False
    then have "name \<in> set (map fst st)" using Cons.prems(2) a by auto
    moreover have "caches_match key st = None" "map_of c key = None"
      using Cons.prems(1) a by (auto split: option.splits)
    ultimately show ?thesis using Cons.IH False a by simp
  qed
qed

lemma caches_match_append:
  "caches_match key (st @ st') =
     (case caches_match key st of Some r \<Rightarrow> Some r | None \<Rightarrow> caches_match key st')"
  by (induction st) (auto split: option.splits)

lemma caches_match_put:
  assumes "caches_match key st = None"
  shows "caches_match key (caches_put name key r st) = Some r"
proof (cases "name \<in> set (map fst st)")
  case True
  then show ?thesis using assms
    by (simp add: caches_put_def caches_open_def caches_match_put_open del: set_map)
next
  case False
  have "caches_match key (st @ [(name, [])]) = None"
    using assms by (simp add: caches_match_append)
  moreover have "name \<in> set (map fst (st @ [(name, [])]))" by simp
  ultimately show ?thesis using False
    unfolding caches_put_def caches_open_def
    by (simp only: if_False caches_match_put_open)
qed

text \<open>
  C6. On a cache hit the listener answers with the cached response, whatever the
  network would do, and leaves the storage alone. On a miss it answers with the
  network's response, and afterwards the cache holds that response under the request
  if and only if its status is 200 and its type basic (otherwise the storage is as
  before). On a miss with a failed fetch it answers with what the cache holds under
  /index.html when the request's destination is document, and with nothing otherwise:
  with the shell document cached, the answer is the shell exactly for a document.
\<close>

theorem fetch_listener_cache_first:
  "(caches_match (url req) st = Some cached \<longrightarrow> fetch_listener st req net = (Some cached, st))
   \<and> (caches_match (url req) st = None \<longrightarrow>
        fst (fetch_listener st req (Resolved (Some r))) = Some r
      \<and> snd (fetch_listener st req (Resolved (Some r))) =
          (if status r = 200 \<and> rtype r = ''basic''
           then caches_put CACHE_NAME (url req) r st else st)
      \<and> (caches_match (url req) (snd (fetch_listener st req (Resolved (Some r)))) = Some r
           \<longleftrightarrow> status r = 200 \<and> rtype r = ''basic'')
      \<and> fetch_listener st req Rejected =
          (if destination req = ''document'' then caches_match ''/index.html'' st else None, st)
      \<and> (caches_match ''/index.html'' st = Some shell \<longrightarrow>
           (fst (fetch_listener st req Rejected) = Some shell
              \<longleftrightarrow> destination req = ''document''))
      \<and> (destination req \<noteq> ''document'' \<longrightarrow> fst (fetch_listener st req Rejected) = None))"
  by (auto simp: fetch_listener_def caches_match_put)

theorem fetch_listener_cache_first_witness:
  "fetch_listener
       [(CACHE_NAME, [(''/index.html'', \<lparr>status = 200, rtype = ''basic'', body = ''shell''\<rparr>)])]
       \<lparr>url = ''/index.html'', destination = ''document''\<rparr> Rejected
     = (Some \<lparr>status = 200, rtype = ''basic'', body = ''shell''\<rparr>,
        [(CACHE_NAME, [(''/index.html'', \<lparr>status = 200, rtype = ''basic'', body = ''shell''\<rparr>)])])
   \<and> caches_match ''/editor.html''
       [(CACHE_NAME, [(''/index.html'', \<lparr>status = 200, rtype = ''basic'', body = ''shell''\<rparr>)])]
     = None
   \<and> caches_match ''/editor.html''
       (snd (fetch_listener
          [(CACHE_NAME, [(''/index.html'', \<lparr>status = 200, rtype = ''basic'', body = ''shell''\<rparr>)])]
          \<lparr>url = ''/editor.html'', destination = ''document''\<rparr>
          (Resolved (Some \<lparr>status = 200, rtype = ''basic'', body = ''editor''\<rparr>))))
     = Some \<lparr>status = 200, rtype = ''basic'', body = ''editor''\<rparr>
   \<and> fst (fetch_listener
          [(CACHE_NAME, [(''/index.html'', \<lparr>status = 200, rtype = ''basic'', body = ''shell''\<rparr>)])]
          \<lparr>url = ''/editor.html'', destination = ''document''\<rparr> Rejected)
     = Some \<lparr>status = 200, rtype = ''basic'', body = ''shell''\<rparr>
   \<and> fst (fetch_listener
          [(CACHE_NAME, [(''/index.html'', \<lparr>status = 200, rtype = ''basic'', body = ''shell''\<rparr>)])]
          \<lparr>url = ''/styles.css'', destination = ''style''\<rparr> Rejected)
     = None"
proof -
  let ?shell = "\<lparr>status = 200, rtype = ''basic'', body = ''shell''\<rparr>"
  let ?editor = "\<lparr>status = 200, rtype = ''basic'', body = ''editor''\<rparr>"
  let ?st = "[(CACHE_NAME, [(''/index.html'', ?shell)])]"
  let ?index = "\<lparr>url = ''/index.html'', destination = ''document''\<rparr>"
  let ?page = "\<lparr>url = ''/editor.html'', destination = ''document''\<rparr>"
  let ?style = "\<lparr>url = ''/styles.css'', destination = ''style''\<rparr>"
  have hit: "caches_match (url ?index) ?st = Some ?shell" by simp
  have miss: "caches_match (url ?page) ?st = None" by simp
  have miss': "caches_match (url ?style) ?st = None" by simp
  have shell: "caches_match ''/index.html'' ?st = Some ?shell" by simp
  have ok: "status ?editor = 200 \<and> rtype ?editor = ''basic''" by simp
  have "fetch_listener ?st ?index Rejected = (Some ?shell, ?st)"
    using fetch_listener_cache_first [where req = ?index and st = ?st and cached = ?shell
        and net = Rejected] hit by blast
  moreover have "caches_match ''/editor.html'' ?st = None"
    using miss by simp
  moreover have
    "caches_match (url ?page) (snd (fetch_listener ?st ?page (Resolved (Some ?editor))))
       = Some ?editor"
    using fetch_listener_cache_first [where req = ?page and st = ?st and r = ?editor] miss ok
    by blast
  moreover have "destination ?page = ''document''" by simp
  then have "fst (fetch_listener ?st ?page Rejected) = Some ?shell"
    using fetch_listener_cache_first [where req = ?page and st = ?st and shell = ?shell]
      miss shell by blast
  moreover have "destination ?style \<noteq> ''document''" by simp
  then have "fst (fetch_listener ?st ?style Rejected) = None"
    using fetch_listener_cache_first [where req = ?style and st = ?st] miss' by blast
  ultimately show ?thesis by simp
qed

section \<open>Changing a cell\<close>

lemma find_None_ids: "find (\<lambda>r. rid r = i) rs = None \<longleftrightarrow> i \<notin> set (map rid rs)"
  by (induction rs) auto

lemma find_first:
  "k < length rs \<Longrightarrow> rid (rs ! k) = i \<Longrightarrow> \<forall>j<k. rid (rs ! j) \<noteq> i \<Longrightarrow>
   find (\<lambda>r. rid r = i) rs = Some (rs ! k)"
proof (induction rs arbitrary: k)
  case Nil
  then show ?case by simp
next
  case (Cons a rs)
  show ?case
  proof (cases k)
    case 0
    then show ?thesis using Cons.prems by simp
  next
    case (Suc k')
    have "rid a \<noteq> i" using Cons.prems(3) Suc by auto
    moreover have "find (\<lambda>r. rid r = i) rs = Some (rs ! k')"
      using Cons.prems Suc by (intro Cons.IH) auto
    ultimately show ?thesis using Suc by simp
  qed
qed

lemma update_found_first:
  "k < length rs \<Longrightarrow> rid (rs ! k) = i \<Longrightarrow> \<forall>j<k. rid (rs ! j) \<noteq> i \<Longrightarrow>
   update_found (\<lambda>r. rid r = i) f rs = rs[k := f (rs ! k)]"
proof (induction rs arbitrary: k)
  case Nil
  then show ?case by simp
next
  case (Cons a rs)
  show ?case
  proof (cases k)
    case 0
    then show ?thesis using Cons.prems by simp
  next
    case (Suc k')
    have "rid a \<noteq> i" using Cons.prems(3) Suc by auto
    moreover have "update_found (\<lambda>r. rid r = i) f rs = rs[k' := f (rs ! k')]"
      using Cons.prems Suc by (intro Cons.IH) auto
    ultimately show ?thesis using Suc by simp
  qed
qed

text \<open>
  C8. When no row of the current table has the id, \<open>handleCellChange\<close> returns the
  editor state as it was: no value, no row count and no flag changes, and nothing is
  raised. When the row at position k is the first with the id and the column is one of
  its columns, the new state differs from the old one in that row's value at that
  column only, and in \<open>hasChanges\<close>, which is recomputed from the two tables.
\<close>

theorem handleCellChange_unknown_row_ignored:
  "(rowId \<notin> set (row_ids s) \<longrightarrow> handleCellChange rowId colIndex newValue s = Some s)
   \<and> (k < length (rows (currentData s)) \<and> rid (rows (currentData s) ! k) = rowId
        \<and> (\<forall>j<k. rid (rows (currentData s) ! j) \<noteq> rowId)
        \<and> colIndex < length (values (rows (currentData s) ! k)) \<longrightarrow>
      handleCellChange rowId colIndex newValue s =
        Some (s\<lparr>currentData := (currentData s)\<lparr>rows := (rows (currentData s))
                  [k := (rows (currentData s) ! k)
                     \<lparr>values := (values (rows (currentData s) ! k))[colIndex := newValue]\<rparr>]\<rparr>,
                hasChanges := (originalData s \<noteq> (currentData s)\<lparr>rows := (rows (currentData s))
                  [k := (rows (currentData s) ! k)
                     \<lparr>values := (values (rows (currentData s) ! k))[colIndex := newValue]\<rparr>]\<rparr>)\<rparr>))"
  by (auto simp: handleCellChange_def row_ids_def find_None_ids[THEN iffD2] find_first
      update_found_first checkForChanges_def array_set_def simp del: set_map)

theorem handleCellChange_unknown_row_ignored_witness:
  "handleCellChange 7 1 (js ''101-199'')
       \<lparr>originalData = \<lparr>headers = [js ''Date'', js ''RoomNumber''],
                        rows = [\<lparr>rid = 0, values = [js ''1'', js ''101-150'']\<rparr>]\<rparr>,
        currentData = \<lparr>headers = [js ''Date'', js ''RoomNumber''],
                       rows = [\<lparr>rid = 0, values = [js ''1'', js ''101-150'']\<rparr>]\<rparr>,
        hasChanges = False\<rparr>
     = Some \<lparr>originalData = \<lparr>headers = [js ''Date'', js ''RoomNumber''],
                        rows = [\<lparr>rid = 0, values = [js ''1'', js ''101-150'']\<rparr>]\<rparr>,
        currentData = \<lparr>headers = [js ''Date'', js ''RoomNumber''],
                       rows = [\<lparr>rid = 0, values = [js ''1'', js ''101-150'']\<rparr>]\<rparr>,
        hasChanges = False\<rparr>
   \<and> handleCellChange 0 1 (js ''101-199'')
       \<lparr>originalData = \<lparr>headers = [js ''Date'', js ''RoomNumber''],
                        rows = [\<lparr>rid = 0, values = [js ''1'', js ''101-150'']\<rparr>]\<rparr>,
        currentData = \<lparr>headers = [js ''Date'', js ''RoomNumber''],
                       rows = [\<lparr>rid = 0, values = [js ''1'', js ''101-150'']\<rparr>]\<rparr>,
        hasChanges = False\<rparr>
     = Some \<lparr>originalData = \<lparr>headers = [js ''Date'', js ''RoomNumber''],
                        rows = [\<lparr>rid = 0, values = [js ''1'', js ''101-150'']\<rparr>]\<rparr>,
        currentData = \<lparr>headers = [js ''Date'', js ''RoomNumber''],
                       rows = [\<lparr>rid = 0, values = [js ''1'', js ''101-199'']\<rparr>]\<rparr>,
        hasChanges = True\<rparr>"
  using
    handleCellChange_unknown_row_ignored [where rowId = 7 and s =
      "\<lparr>originalData = \<lparr>headers = [js ''Date'', js ''RoomNumber''],
                        rows = [\<lparr>rid = 0, values = [js ''1'', js ''101-150'']\<rparr>]\<rparr>,
        currentData = \<lparr>headers = [js ''Date'', js ''RoomNumber''],
                       rows = [\<lparr>rid = 0, values = [js ''1'', js ''101-150'']\<rparr>]\<rparr>,
        hasChanges = False\<rparr>" and colIndex = 1 and newValue = "js ''101-199''"]
    handleCellChange_unknown_row_ignored [where rowId = 0 and s =
      "\<lparr>originalData = \<lparr>headers = [js ''Date'', js ''RoomNumber''],
                        rows = [\<lparr>rid = 0, values = [js ''1'', js ''101-150'']\<rparr>]\<rparr>,
        currentData = \<lparr>headers = [js ''Date'', js ''RoomNumber''],
                       rows = [\<lparr>rid = 0, values = [js ''1'', js ''101-150'']\<rparr>]\<rparr>,
        hasChanges = False\<rparr>" and colIndex = 1 and newValue = "js ''101-199''" and k = 0]
  by (simp add: row_ids_def js_def)

section \<open>Parsed fields are trimmed\<close>

lemma last_dropWhile: "dropWhile P xs \<noteq> [] \<Longrightarrow> last (dropWhile P xs) = last xs"
  by (induction xs) (auto split: if_splits)

lemma trimmed_trim: "trimmed (trim s)"
proof -
  let ?t = "dropWhile is_ws s"
  let ?u = "dropWhile is_ws (rev ?t)"
  show ?thesis
  proof (cases "?u = []")
    case True
    have "trim s = []" unfolding trim_def True by simp
    then show ?thesis by (simp add: trimmed_def)
  next
    case False
    have t: "?t \<noteq> []"
    proof
      assume "?t = []"
      then have "?u = []" by (simp only: rev.simps dropWhile.simps)
      with False show False by blast
    qed
    have "\<not> is_ws (hd ?u)" using False by (rule hd_dropWhile)
    moreover have "last ?u = last (rev ?t)" using False by (rule last_dropWhile)
    then have "last ?u = hd ?t" using t by (simp add: last_rev)
    moreover have "\<not> is_ws (hd ?t)" using t by (rule hd_dropWhile)
    ultimately show ?thesis using False
      by (simp add: trimmed_def trim_def hd_rev last_rev)
  qed
qed

lemma all_trimmed_Nil: "all_trimmed []"
  by (simp add: all_trimmed_def)

lemma all_trimmed_snoc: "all_trimmed fs \<Longrightarrow> all_trimmed (fs @ [trim f])"
  by (simp add: all_trimmed_def trimmed_trim)

lemma parse_loop_trimmed:
  "\<forall>x \<in> set R. all_trimmed x \<Longrightarrow> all_trimmed r \<Longrightarrow>
   \<forall>x \<in> set (parse_loop t q f r R). all_trimmed x"
proof (induction "length t" arbitrary: t q f r R rule: less_induct)
  case less
  show ?case
  proof (cases t)
    case Nil
    then show ?thesis using less.prems
      by (auto simp: parse_loop.simps(1) all_trimmed_snoc)
  next
    case (Cons c t')
    consider (esc) t'' where "c = QUOTE" "q" "t' = QUOTE # t''"
      | (close) "c = QUOTE" "q" "t' = [] \<or> hd t' \<noteq> QUOTE"
      | (unquoted) "c = QUOTE" "\<not> q"
      | (quoted) "c \<noteq> QUOTE" "q"
      | (comma) "c = COMMA" "\<not> q"
      | (newline) "c = LF \<or> c = CR" "\<not> q"
      | (regular) "c \<noteq> QUOTE" "c \<noteq> COMMA" "c \<noteq> LF" "c \<noteq> CR" "\<not> q"
      by (cases t') auto
    then show ?thesis
    proof cases
      case esc
      have "\<forall>x \<in> set (parse_loop t'' True (f @ [QUOTE]) r R). all_trimmed x"
        using less.prems by (intro less.hyps) (simp_all add: Cons esc)
      then show ?thesis by (simp add: Cons esc parse_loop_quote_escaped)
    next
      case close
      have "\<forall>x \<in> set (parse_loop t' False f r R). all_trimmed x"
        using less.prems by (intro less.hyps) (simp_all add: Cons)
      then show ?thesis using close by (simp add: Cons parse_loop_quote_close)
    next
      case unquoted
      have "\<forall>x \<in> set (parse_loop t' True f r R). all_trimmed x"
        using less.prems by (intro less.hyps) (simp_all add: Cons)
      then show ?thesis using unquoted by (simp add: Cons parse_loop_quote_open)
    next
      case quoted
      have "\<forall>x \<in> set (parse_loop t' True (f @ [c]) r R). all_trimmed x"
        using less.prems by (intro less.hyps) (simp_all add: Cons)
      then show ?thesis using quoted by (simp add: Cons parse_loop_regular_quoted)
    next
      case comma
      have "\<forall>x \<in> set (parse_loop t' False [] (r @ [trim f]) R). all_trimmed x"
        using less.prems by (intro less.hyps) (simp_all add: Cons all_trimmed_snoc)
      then show ?thesis using comma by (simp add: Cons parse_loop_comma)
    next
      case newline
      let ?t = "if c = CR \<and> t' \<noteq> [] \<and> hd t' = LF then tl t' else t'"
      let ?f = "if trim f \<noteq> [] \<or> r \<noteq> [] then [] else f"
      let ?r = "if trim f \<noteq> [] \<or> r \<noteq> [] then [] else r"
      let ?R = "if (trim f \<noteq> [] \<or> r \<noteq> []) \<and> (\<exists>x \<in> set (r @ [trim f]). x \<noteq> [])
                then R @ [r @ [trim f]] else R"
      have "length ?t < length t" by (auto simp: Cons less_Suc_eq_le)
      moreover have "\<forall>x \<in> set ?R. all_trimmed x"
        using less.prems by (simp add: all_trimmed_snoc)
      moreover have "all_trimmed ?r"
        using less.prems by (simp add: all_trimmed_Nil)
      ultimately have "\<forall>x \<in> set (parse_loop ?t False ?f ?r ?R). all_trimmed x"
        by (rule less.hyps)
      then show ?thesis using newline
        by (simp only: Cons parse_loop_newline [OF newline(1)])
    next
      case regular
      have "\<forall>x \<in> set (parse_loop t' False (f @ [c]) r R). all_trimmed x"
        using less.prems by (intro less.hyps) (simp_all add: Cons)
      then show ?thesis using regular by (simp add: Cons parse_loop_regular)
    qed
  qed
qed

lemma parseCSVRecords_trimmed: "\<forall>r \<in> set (parseCSVRecords csvText). all_trimmed r"
  unfolding parseCSVRecords_def by (rule parse_loop_trimmed) (simp_all add: all_trimmed_Nil)

lemma all_trimmed_pad: "all_trimmed r \<Longrightarrow> all_trimmed (pad_record n r)"
  by (auto simp: all_trimmed_def pad_record_def trimmed_def)

text \<open>
  C10. Every header and every cell value of a parsed table has no white space at its
  start and none at its end, whatever the text: each field is trimmed when it is pushed,
  quoted or not, so quotes do not protect the white space inside them.
\<close>

theorem parseCSV_fields_trimmed:
  "(\<forall>h \<in> set (headers (parseCSV csvText)). trimmed h)
   \<and> (\<forall>r \<in> set (rows (parseCSV csvText)). \<forall>v \<in> set (values r). trimmed v)"
proof -
  have *: "\<forall>r \<in> set (parseCSVRecords csvText). all_trimmed r"
    by (rule parseCSVRecords_trimmed)
  show ?thesis
  proof (cases "parseCSVRecords csvText")
    case Nil
    then show ?thesis by (simp add: parseCSV_def)
  next
    case (Cons hdrs rest)
    have h: "all_trimmed hdrs" using * Cons by simp
    have r: "\<forall>r \<in> set rest. all_trimmed (pad_record (length hdrs) r)"
      using * Cons by (simp add: all_trimmed_pad)
    have "\<forall>r \<in> set (rows (parseCSV csvText)). all_trimmed (values r)"
      using r by (auto simp: parseCSV_def Cons in_set_enumerate_eq)
    then show ?thesis using h
      by (simp add: parseCSV_def Cons all_trimmed_def)
  qed
qed

theorem parseCSV_fields_trimmed_witness:
  "parseCSV (js ''a,\" b \"\<newline>\" c\",d'') =
     \<lparr>headers = [js ''a'', js ''b''], rows = [\<lparr>rid = 0, values = [js ''c'', js ''d'']\<rparr>]\<rparr>
   \<and> trimmed (js ''b'') \<and> trimmed (js ''c'')"
proof -
  have p: "parseCSV (js ''a,\" b \"\<newline>\" c\",d'') =
     \<lparr>headers = [js ''a'', js ''b''], rows = [\<lparr>rid = 0, values = [js ''c'', js ''d'']\<rparr>]\<rparr>"
    by (simp add: parseCSV_def parseCSVRecords_def parse_loop.simps js_def trim_def is_ws_def
        pad_record_def enumerate_eq_zip upt_rec)
  show ?thesis
    using parseCSV_fields_trimmed [of "js ''a,\" b \"\<newline>\" c\",d''"]
    unfolding p by simp
qed

section \<open>Row ids in a session\<close>

lemma parseCSV_row_ids:
  "map rid (rows (parseCSV csvText)) = map int [0..<length (rows (parseCSV csvText))]"
proof (cases "parseCSVRecords csvText")
  case Nil
  then show ?thesis by (simp add: parseCSV_def)
next
  case (Cons hdrs rest)
  have "map rid (rows (parseCSV csvText)) = map (\<lambda>x. int (fst x)) (enumerate 0 rest)"
    by (simp add: parseCSV_def Cons case_prod_unfold comp_def)
  also have "\<dots> = map int (map fst (enumerate 0 rest))"
    by (simp only: map_map comp_def)
  also have "\<dots> = map int [0..<length rest]"
    by (simp only: map_fst_enumerate add_0)
  finally show ?thesis by (simp add: parseCSV_def Cons)
qed

lemma distinct_parseCSV_ids: "distinct (map rid (rows (parseCSV csvText)))"
  by (subst parseCSV_row_ids) (simp add: distinct_map inj_on_def)

lemma newRowId_greater: "i \<in> set (map rid (rows t)) \<Longrightarrow> i < newRowId t"
proof -
  assume "i \<in> set (map rid (rows t))"
  then have "i \<le> Max (set (map rid (rows t) @ [-1]))"
    by (intro Max_ge) auto
  then show ?thesis by (simp add: newRowId_def)
qed

lemma row_ids_addRow: "row_ids (addRow s) = row_ids s @ [newRowId (currentData s)]"
  by (simp add: addRow_def row_ids_def checkForChanges_def Let_def)

lemma row_ids_deleteSelectedRow:
  "row_ids (deleteSelectedRow ids confirmed s) =
     (if ids = [] \<or> \<not> confirmed then row_ids s else filter (\<lambda>i. i \<notin> set ids) (row_ids s))"
  by (simp add: deleteSelectedRow_def row_ids_def checkForChanges_def filter_map comp_def)

lemma distinct_apply_op: "distinct (row_ids s) \<Longrightarrow> distinct (row_ids (apply_op s x))"
proof (cases x)
  case AddRow
  assume "distinct (row_ids s)"
  moreover have "newRowId (currentData s) \<notin> set (row_ids s)"
    using newRowId_greater [of "newRowId (currentData s)" "currentData s"]
    by (auto simp: row_ids_def)
  ultimately show ?thesis by (simp add: AddRow row_ids_addRow)
next
  case (DeleteSelectedRow ids confirmed)
  assume "distinct (row_ids s)"
  then show ?thesis by (simp add: DeleteSelectedRow row_ids_deleteSelectedRow)
qed

lemma distinct_foldl_apply_op:
  "distinct (row_ids s) \<Longrightarrow> distinct (row_ids (foldl apply_op s ops))"
  by (induction ops arbitrary: s) (simp_all add: distinct_apply_op)

lemma distinct_session: "distinct (row_ids (session csvText s0 ops))"
  unfolding session_def
  by (rule distinct_foldl_apply_op) (simp add: row_ids_def loadFileData_def distinct_parseCSV_ids)

text \<open>
  C3, as the code has it. The new id is the maximum of the ids now in the table plus
  one, so the id of a deleted row comes back when no row with that id or a greater one
  is left. What holds in every session that starts from a parsed table: the ids of the
  current rows are pairwise distinct, \<open>addRow\<close> gives the new row an id greater than
  every id now in the table, and so an id held before is never assigned again while a
  row with that id or a greater one remains.
\<close>

theorem session_ids_fresh_among_current:
  "distinct (row_ids (session csvText s0 ops))
   \<and> row_ids (session csvText s0 (ops @ [AddRow])) =
       row_ids (session csvText s0 ops) @ [newRowId (currentData (session csvText s0 ops))]
   \<and> (\<forall>i \<in> set (row_ids (session csvText s0 ops)).
        i < newRowId (currentData (session csvText s0 ops)))
   \<and> (\<forall>d \<in> set (ids_held (loadFileData csvText s0) ops).
        (\<exists>i \<in> set (row_ids (session csvText s0 ops)). d \<le> i) \<longrightarrow>
        newRowId (currentData (session csvText s0 ops)) \<noteq> d)"
proof -
  let ?s = "session csvText s0 ops"
  have "session csvText s0 (ops @ [AddRow]) = addRow ?s"
    by (simp add: session_def)
  then have "row_ids (session csvText s0 (ops @ [AddRow])) =
      row_ids ?s @ [newRowId (currentData ?s)]"
    by (simp add: row_ids_addRow)
  moreover have greater: "\<forall>i \<in> set (row_ids ?s). i < newRowId (currentData ?s)"
    using newRowId_greater [of _ "currentData ?s"] by (simp add: row_ids_def)
  moreover have "\<forall>d \<in> set (ids_held (loadFileData csvText s0) ops).
      (\<exists>i \<in> set (row_ids ?s). d \<le> i) \<longrightarrow> newRowId (currentData ?s) \<noteq> d"
    using greater by fastforce
  ultimately show ?thesis using distinct_session [of csvText s0 ops] by simp
qed

theorem session_ids_fresh_among_current_witness:
  "row_ids (session (js ''h\<newline>a\<newline>b\<newline>c\<newline>'') initial_editor [DeleteSelectedRow [1] True]) = [0, 2]
   \<and> row_ids (session (js ''h\<newline>a\<newline>b\<newline>c\<newline>'') initial_editor
        ([DeleteSelectedRow [1] True] @ [AddRow])) = [0, 2, 3]
   \<and> ids_held (loadFileData (js ''h\<newline>a\<newline>b\<newline>c\<newline>'') initial_editor)
        [DeleteSelectedRow [1] True] = [0, 1, 2, 0, 2]
   \<and> newRowId (currentData
        (session (js ''h\<newline>a\<newline>b\<newline>c\<newline>'') initial_editor [DeleteSelectedRow [1] True])) \<noteq> 1"
proof -
  let ?text = "js ''h\<newline>a\<newline>b\<newline>c\<newline>''"
  let ?ops = "[DeleteSelectedRow [1] True]"
  have p: "parseCSV ?text =
     \<lparr>headers = [js ''h''],
      rows = [\<lparr>rid = 0, values = [js ''a'']\<rparr>, \<lparr>rid = 1, values = [js ''b'']\<rparr>,
              \<lparr>rid = 2, values = [js ''c'']\<rparr>]\<rparr>"
    by (simp add: parseCSV_def parseCSVRecords_def parse_loop.simps js_def trim_def is_ws_def
        pad_record_def enumerate_eq_zip upt_rec)
  have ids: "row_ids (session ?text initial_editor ?ops) = [0, 2]"
    by (simp add: session_def loadFileData_def p row_ids_def deleteSelectedRow_def
        checkForChanges_def)
  have held: "ids_held (loadFileData ?text initial_editor) ?ops = [0, 1, 2, 0, 2]"
    by (simp add: loadFileData_def p row_ids_def deleteSelectedRow_def checkForChanges_def)
  have "(1::int) \<in> set [0, 1, 2, 0, 2]" "\<exists>i \<in> set [0, 2::int]. 1 \<le> i" by simp_all
  then have "newRowId (currentData (session ?text initial_editor ?ops)) \<noteq> 1"
    using session_ids_fresh_among_current [of ?text initial_editor ?ops]
    unfolding ids held by blast
  moreover have "newRowId (currentData (session ?text initial_editor ?ops)) = 3"
    by (simp add: session_def loadFileData_def p deleteSelectedRow_def checkForChanges_def
        newRowId_def)
  ultimately show ?thesis
    using session_ids_fresh_among_current [of ?text initial_editor ?ops]
    unfolding ids held by simp
qed

text \<open>
  The claim as it is written fails: the file \<open>h\<newline>a\<newline>\<close> has one row, with id 0; once
  it is deleted no row is left, and the row added next gets the id 0 again.
\<close>

theorem deleted_id_reused:
  "ids_held (loadFileData (js ''h\<newline>a\<newline>'') initial_editor) [DeleteSelectedRow [0] True] = [0]
   \<and> row_ids (session (js ''h\<newline>a\<newline>'') initial_editor [DeleteSelectedRow [0] True]) = []
   \<and> row_ids (session (js ''h\<newline>a\<newline>'') initial_editor [DeleteSelectedRow [0] True, AddRow])
       = [0]"
proof -
  have p: "parseCSV (js ''h\<newline>a\<newline>'') =
     \<lparr>headers = [js ''h''], rows = [\<lparr>rid = 0, values = [js ''a'']\<rparr>]\<rparr>"
    by (simp add: parseCSV_def parseCSVRecords_def parse_loop.simps js_def trim_def is_ws_def
        pad_record_def enumerate_eq_zip upt_rec)
  show ?thesis
    by (simp add: session_def loadFileData_def p row_ids_def deleteSelectedRow_def
        checkForChanges_def addRow_def newRowId_def initial_editor_def)
qed

section \<open>The changes between two tables\<close>

lemma foldl_push:
  assumes "\<And>acc x. f acc x = acc @ g x"
  shows "foldl f a xs = a @ concat (map g xs)"
  by (induction xs arbitrary: a) (simp_all add: assms)

lemma calculateChanges_concat:
  "calculateChanges original current =
     concat (map (\<lambda>(index, row).
                if rid row \<notin> set (map rid (rows original))
                then [\<lparr>ctype = added, description = row_label index row\<rparr>] else [])
             (enumerate 0 (rows current))) @
     concat (map (\<lambda>row.
                if rid row \<notin> set (map rid (rows current))
                then [\<lparr>ctype = deleted, description = data_label row\<rparr>] else [])
             (rows original)) @
     concat (map (\<lambda>(index, currentRow).
                (case find (\<lambda>r. rid r = rid currentRow) (rows original) of
                   None \<Rightarrow> []
                 | Some originalRow \<Rightarrow>
                     if values currentRow \<noteq> values originalRow
                     then [\<lparr>ctype = modified, description = row_label index currentRow\<rparr>]
                     else []))
             (enumerate 0 (rows current)))"
  (is "_ = concat (map ?gA _) @ concat (map ?gD _) @ concat (map ?gM _)")
proof -
  have A: "\<And>acc x. (case x of (index, row) \<Rightarrow>
                if rid row \<notin> set (map rid (rows original))
                then acc @ [\<lparr>ctype = added, description = row_label index row\<rparr>]
                else acc) = acc @ ?gA x"
    by (simp split: prod.splits)
  have D: "\<And>acc x. (if rid x \<notin> set (map rid (rows current))
                then acc @ [\<lparr>ctype = deleted, description = data_label x\<rparr>]
                else acc) = acc @ ?gD x"
    by simp
  have M: "\<And>acc x. (case x of (index, currentRow) \<Rightarrow>
                (case find (\<lambda>r. rid r = rid currentRow) (rows original) of
                   None \<Rightarrow> acc
                 | Some originalRow \<Rightarrow>
                     if values currentRow \<noteq> values originalRow
                     then acc @ [\<lparr>ctype = modified, description = row_label index currentRow\<rparr>]
                     else acc)) = acc @ ?gM x"
    by (simp split: prod.splits option.splits)
  show ?thesis
    unfolding calculateChanges_def Let_def
    by (simp only: foldl_push [of _ ?gA, OF A] foldl_push [of _ ?gD, OF D]
        foldl_push [of _ ?gM, OF M] append_Nil append_assoc)
qed

lemma map_ctype_concat:
  assumes "\<And>x. x \<in> set xs \<Longrightarrow> P x \<Longrightarrow> \<exists>c. g x = [c] \<and> ctype c = K"
    and "\<And>x. x \<in> set xs \<Longrightarrow> \<not> P x \<Longrightarrow> g x = []"
  shows "map ctype (concat (map g xs)) = replicate (length (filter P xs)) K"
  using assms
proof (induction xs)
  case Nil
  show ?case by simp
next
  case (Cons x xs)
  have IH: "map ctype (concat (map g xs)) = replicate (length (filter P xs)) K"
    by (rule Cons.IH) (auto intro: Cons.prems)
  show ?case
  proof (cases "P x")
    case True
    then obtain c where "g x = [c]" "ctype c = K" using Cons.prems(1) [of x] by auto
    then show ?thesis using True IH by simp
  next
    case False
    then have "g x = []" using Cons.prems(2) [of x] by simp
    then show ?thesis using False IH by simp
  qed
qed

lemma length_filter_enumerate:
  "length (filter (\<lambda>(k, r). P r) (enumerate n rs)) = length (filter P rs)"
  by (induction rs arbitrary: n) simp_all

lemma length_filter_ids:
  assumes "distinct (map rid rs)"
  shows "length (filter (\<lambda>r. Q (rid r)) rs) = card {i \<in> set (map rid rs). Q i}"
proof -
  have "length (filter (\<lambda>r. Q (rid r)) rs) = length (filter Q (map rid rs))"
    by (simp add: filter_map comp_def)
  also have "\<dots> = card (set (filter Q (map rid rs)))"
    using distinct_filter [OF assms, of Q] by (rule distinct_card [symmetric])
  also have "set (filter Q (map rid rs)) = {i \<in> set (map rid rs). Q i}"
    by auto
  finally show ?thesis .
qed

lemma find_distinct:
  "distinct (map rid rs) \<Longrightarrow> r \<in> set rs \<Longrightarrow> find (\<lambda>x. rid x = rid r) rs = Some r"
  by (induction rs) (auto simp: image_iff)

lemma values_of_member:
  "distinct (map rid (rows t)) \<Longrightarrow> r \<in> set (rows t) \<Longrightarrow> values_of t (rid r) = Some (values r)"
  by (simp add: values_of_def find_distinct)

lemma values_of_None: "values_of t i = None \<longleftrightarrow> i \<notin> set (map rid (rows t))"
  by (simp add: values_of_def find_None_ids)

lemma change_kinds_by_rows:
  "map ctype (calculateChanges original current) =
     replicate (length (filter (\<lambda>r. rid r \<notin> set (map rid (rows original))) (rows current)))
       added @
     replicate (length (filter (\<lambda>r. rid r \<notin> set (map rid (rows current))) (rows original)))
       deleted @
     replicate (length (filter (\<lambda>r. values_of original (rid r) \<notin> {None, Some (values r)})
                          (rows current)))
       modified"
proof -
  let ?O = "set (map rid (rows original))"
  let ?C = "set (map rid (rows current))"
  let ?PM = "\<lambda>r. values_of original (rid r) \<notin> {None, Some (values r)}"
  have A: "map ctype (concat (map (\<lambda>(index, row).
                if rid row \<notin> ?O
                then [\<lparr>ctype = added, description = row_label index row\<rparr>] else [])
             (enumerate 0 (rows current))))
        = replicate (length (filter (\<lambda>(k, r). rid r \<notin> ?O) (enumerate 0 (rows current)))) added"
    by (rule map_ctype_concat) auto
  have D: "map ctype (concat (map (\<lambda>row.
                if rid row \<notin> ?C
                then [\<lparr>ctype = deleted, description = data_label row\<rparr>] else [])
             (rows original)))
        = replicate (length (filter (\<lambda>r. rid r \<notin> ?C) (rows original))) deleted"
    by (rule map_ctype_concat) auto
  have M: "map ctype (concat (map (\<lambda>(index, currentRow).
                (case find (\<lambda>r. rid r = rid currentRow) (rows original) of
                   None \<Rightarrow> []
                 | Some originalRow \<Rightarrow>
                     if values currentRow \<noteq> values originalRow
                     then [\<lparr>ctype = modified, description = row_label index currentRow\<rparr>]
                     else []))
             (enumerate 0 (rows current))))
        = replicate (length (filter (\<lambda>(k, r). ?PM r) (enumerate 0 (rows current)))) modified"
    by (rule map_ctype_concat) (auto simp: values_of_def split: option.splits)
  show ?thesis
    by (simp only: calculateChanges_concat map_append A D M length_filter_enumerate)
qed

lemma change_kinds_by_id_sets:
  assumes orig: "distinct (map rid (rows original))"
    and cur: "distinct (map rid (rows current))"
  shows "map ctype (calculateChanges original current) =
     replicate (card (set (map rid (rows current)) - set (map rid (rows original)))) added @
     replicate (card (set (map rid (rows original)) - set (map rid (rows current)))) deleted @
     replicate (card {i \<in> set (map rid (rows current)) \<inter> set (map rid (rows original)).
                      values_of current i \<noteq> values_of original i}) modified"
proof -
  let ?O = "set (map rid (rows original))"
  let ?C = "set (map rid (rows current))"
  have A: "length (filter (\<lambda>r. rid r \<notin> ?O) (rows current)) = card (?C - ?O)"
  proof -
    have "length (filter (\<lambda>r. rid r \<notin> ?O) (rows current)) = card {i \<in> ?C. i \<notin> ?O}"
      by (rule length_filter_ids [OF cur])
    moreover have "{i \<in> ?C. i \<notin> ?O} = ?C - ?O" by auto
    ultimately show ?thesis by simp
  qed
  have D: "length (filter (\<lambda>r. rid r \<notin> ?C) (rows original)) = card (?O - ?C)"
  proof -
    have "length (filter (\<lambda>r. rid r \<notin> ?C) (rows original)) = card {i \<in> ?O. i \<notin> ?C}"
      by (rule length_filter_ids [OF orig])
    moreover have "{i \<in> ?O. i \<notin> ?C} = ?O - ?C" by auto
    ultimately show ?thesis by simp
  qed
  have M: "length (filter (\<lambda>r. values_of original (rid r) \<notin> {None, Some (values r)})
                     (rows current))
      = card {i \<in> ?C \<inter> ?O. values_of current i \<noteq> values_of original i}"
  proof -
    have "filter (\<lambda>r. values_of original (rid r) \<notin> {None, Some (values r)}) (rows current)
        = filter (\<lambda>r. rid r \<in> ?O \<and> values_of current (rid r) \<noteq> values_of original (rid r))
            (rows current)"
    proof (rule filter_cong [OF refl])
      fix r assume "r \<in> set (rows current)"
      then have "values_of current (rid r) = Some (values r)"
        by (rule values_of_member [OF cur])
      then show "(values_of original (rid r) \<notin> {None, Some (values r)}) =
          (rid r \<in> ?O \<and> values_of current (rid r) \<noteq> values_of original (rid r))"
        using values_of_None [of original "rid r"] by auto
    qed
    moreover have "length (filter
          (\<lambda>r. rid r \<in> ?O \<and> values_of current (rid r) \<noteq> values_of original (rid r))
          (rows current))
        = card {i \<in> ?C. i \<in> ?O \<and> values_of current i \<noteq> values_of original i}"
      by (rule length_filter_ids [OF cur])
    moreover have "{i \<in> ?C. i \<in> ?O \<and> values_of current i \<noteq> values_of original i}
        = {i \<in> ?C \<inter> ?O. values_of current i \<noteq> values_of original i}" by auto
    ultimately show ?thesis by simp
  qed
  show ?thesis
    by (simp only: change_kinds_by_rows A D M)
qed


lemma concat_map_Nil: "(\<And>x. x \<in> set xs \<Longrightarrow> g x = []) \<Longrightarrow> concat (map g xs) = []"
  by (induction xs) simp_all

lemma enumerate_member: "(j, r) \<in> set (enumerate n xs) \<Longrightarrow> r \<in> set xs"
  by (auto simp: in_set_enumerate_eq)

lemma single_edit_changes:
  assumes d: "distinct (map rid (rows original))"
    and k: "k < length (rows original)"
    and col: "colIndex < length (values (rows original ! k))"
    and v: "newValue \<noteq> values (rows original ! k) ! colIndex"
  shows "calculateChanges original
           (original\<lparr>rows := (rows original)
              [k := (rows original ! k)
                 \<lparr>values := (values (rows original ! k))[colIndex := newValue]\<rparr>]\<rparr>)
         = [\<lparr>ctype = modified,
             description = row_label k ((rows original ! k)
                 \<lparr>values := (values (rows original ! k))[colIndex := newValue]\<rparr>)\<rparr>]"
proof -
  let ?rs = "rows original"
  let ?r' = "(?rs ! k)\<lparr>values := (values (?rs ! k))[colIndex := newValue]\<rparr>"
  let ?rs' = "?rs[k := ?r']"
  let ?cur = "original\<lparr>rows := ?rs'\<rparr>"
  let ?gM = "\<lambda>(index, currentRow).
                (case find (\<lambda>r. rid r = rid currentRow) ?rs of
                   None \<Rightarrow> []
                 | Some originalRow \<Rightarrow>
                     if values currentRow \<noteq> values originalRow
                     then [\<lparr>ctype = modified, description = row_label index currentRow\<rparr>]
                     else [])"
  have ids: "map rid ?rs' = map rid ?rs"
    by (simp add: map_update list_update_same_conv k)
  have rows_cur: "rows ?cur = ?rs'" by simp
  have A: "concat (map (\<lambda>(index, row).
                if rid row \<notin> set (map rid ?rs)
                then [\<lparr>ctype = added, description = row_label index row\<rparr>] else [])
             (enumerate 0 ?rs')) = []"
  proof (rule concat_map_Nil)
    fix x assume x: "x \<in> set (enumerate 0 ?rs')"
    obtain j r where jr: "x = (j, r)" by (cases x)
    have "r \<in> set ?rs'" using x jr by (auto dest: enumerate_member)
    then have "rid r \<in> set (map rid ?rs')" by simp
    then have "rid r \<in> set (map rid ?rs)" by (simp only: ids)
    then show "(case x of (index, row) \<Rightarrow>
                if rid row \<notin> set (map rid ?rs)
                then [\<lparr>ctype = added, description = row_label index row\<rparr>] else []) = []"
      by (simp add: jr)
  qed
  have D: "concat (map (\<lambda>row.
                if rid row \<notin> set (map rid ?rs')
                then [\<lparr>ctype = deleted, description = data_label row\<rparr>] else [])
             ?rs) = []"
    by (rule concat_map_Nil) (simp add: ids)
  have same: "?gM x = []" if "x \<in> set (enumerate n xs)" "set xs \<subseteq> set ?rs" for x n xs
  proof -
    obtain j r where jr: "x = (j, r)" by (cases x)
    have "r \<in> set ?rs" using that jr by (auto dest: enumerate_member)
    then have "find (\<lambda>x. rid x = rid r) ?rs = Some r" by (rule find_distinct [OF d])
    then show ?thesis by (simp add: jr)
  qed
  have hit: "?gM (k, ?r') = [\<lparr>ctype = modified, description = row_label k ?r'\<rparr>]"
  proof -
    have "find (\<lambda>x. rid x = rid (?rs ! k)) ?rs = Some (?rs ! k)"
      using k by (intro find_distinct [OF d]) simp
    moreover have "(values (?rs ! k))[colIndex := newValue] \<noteq> values (?rs ! k)"
    proof
      assume "(values (?rs ! k))[colIndex := newValue] = values (?rs ! k)"
      then have "(values (?rs ! k))[colIndex := newValue] ! colIndex = values (?rs ! k) ! colIndex"
        by simp
      then show False using col v by simp
    qed
    ultimately show ?thesis by simp
  qed
  have split: "enumerate 0 ?rs' =
      enumerate 0 (take k ?rs) @ (k, ?r') # enumerate (Suc k) (drop (Suc k) ?rs)"
    using k by (simp add: upd_conv_take_nth_drop enumerate_append_eq min_def)
  have M: "concat (map ?gM (enumerate 0 ?rs')) =
      [\<lparr>ctype = modified, description = row_label k ?r'\<rparr>]"
  proof -
    have "concat (map ?gM (enumerate 0 (take k ?rs))) = []"
      by (rule concat_map_Nil) (rule same, assumption, rule set_take_subset)
    moreover have "concat (map ?gM (enumerate (Suc k) (drop (Suc k) ?rs))) = []"
      by (rule concat_map_Nil) (rule same, assumption, rule set_drop_subset)
    ultimately show ?thesis
      by (simp only: split map_append concat_append list.map concat.simps hit append_Nil
          append_Nil2)
  qed
  show ?thesis
    by (simp only: calculateChanges_concat rows_cur table.simps A D M append_Nil)
qed

lemma distinct_first:
  assumes "distinct (map rid rs)" "k < length rs"
  shows "\<forall>j<k. rid (rs ! j) \<noteq> rid (rs ! k)"
proof (intro allI impI)
  fix j assume "j < k"
  then have "(map rid rs ! j = map rid rs ! k) = (j = k)"
    using assms by (intro nth_eq_iff_index_eq) simp_all
  then show "rid (rs ! j) \<noteq> rid (rs ! k)" using assms \<open>j < k\<close> by simp
qed

lemma handleCellChange_loaded:
  assumes d: "distinct (map rid (rows original))"
    and k: "k < length (rows original)"
    and col: "colIndex < length (values (rows original ! k))"
  shows "\<exists>h'. handleCellChange (rid (rows original ! k)) colIndex newValue
           \<lparr>originalData = original, currentData = original, hasChanges = h\<rparr>
         = Some \<lparr>originalData = original,
                 currentData = original\<lparr>rows := (rows original)
                   [k := (rows original ! k)
                      \<lparr>values := (values (rows original ! k))[colIndex := newValue]\<rparr>]\<rparr>,
                 hasChanges = h'\<rparr>"
  using k col distinct_first [OF d k]
  by (simp add: handleCellChange_def find_first update_found_first checkForChanges_def
      array_set_def)


text \<open>
  C4. For every pair of tables the changes are, in this order, one added change for
  every current row whose id no original row has, one deleted change for every original
  row whose id no current row has, and one modified change for every current row whose
  id some original row has and whose values differ from those of the first such row;
  there is no other change. When the row ids are pairwise distinct in each table, as
  they are in every session, that is one added change for every id that only the
  current table has, one deleted change for every id that only the original table has,
  and one modified change for every id of both tables under which the two value
  sequences differ. In particular, for a table loaded as both original and current,
  changing one cell of the row at position k to a different value gives exactly one
  change: a modified change whose description names row k + 1 and its new first values.
\<close>

theorem calculateChanges_by_id_sets:
  "map ctype (calculateChanges original current) =
     replicate (length (filter (\<lambda>r. rid r \<notin> set (map rid (rows original))) (rows current)))
       added @
     replicate (length (filter (\<lambda>r. rid r \<notin> set (map rid (rows current))) (rows original)))
       deleted @
     replicate (length (filter (\<lambda>r. values_of original (rid r) \<notin> {None, Some (values r)})
                          (rows current)))
       modified
   \<and> (distinct (map rid (rows original)) \<and> distinct (map rid (rows current)) \<longrightarrow>
        map ctype (calculateChanges original current) =
          replicate (card (set (map rid (rows current)) - set (map rid (rows original))))
            added @
          replicate (card (set (map rid (rows original)) - set (map rid (rows current))))
            deleted @
          replicate (card {i \<in> set (map rid (rows current)) \<inter> set (map rid (rows original)).
                           values_of current i \<noteq> values_of original i})
            modified)
   \<and> (distinct (map rid (rows original))
        \<and> k < length (rows original) \<and> colIndex < length (values (rows original ! k))
        \<and> newValue \<noteq> values (rows original ! k) ! colIndex \<longrightarrow>
        (let row' = (rows original ! k)
                      \<lparr>values := (values (rows original ! k))[colIndex := newValue]\<rparr>;
             current' = original\<lparr>rows := (rows original)[k := row']\<rparr>
         in (\<exists>h'. handleCellChange (rid (rows original ! k)) colIndex newValue
                     \<lparr>originalData = original, currentData = original, hasChanges = h\<rparr>
                   = Some \<lparr>originalData = original, currentData = current', hasChanges = h'\<rparr>)
            \<and> calculateChanges original current' =
                [\<lparr>ctype = modified, description = row_label k row'\<rparr>]))"
proof -
  have "distinct (map rid (rows original)) \<and> distinct (map rid (rows current)) \<longrightarrow>
        map ctype (calculateChanges original current) =
          replicate (card (set (map rid (rows current)) - set (map rid (rows original))))
            added @
          replicate (card (set (map rid (rows original)) - set (map rid (rows current))))
            deleted @
          replicate (card {i \<in> set (map rid (rows current)) \<inter> set (map rid (rows original)).
                           values_of current i \<noteq> values_of original i})
            modified"
    using change_kinds_by_id_sets [of original current] by blast
  moreover have "distinct (map rid (rows original))
        \<and> k < length (rows original) \<and> colIndex < length (values (rows original ! k))
        \<and> newValue \<noteq> values (rows original ! k) ! colIndex \<longrightarrow>
        (let row' = (rows original ! k)
                      \<lparr>values := (values (rows original ! k))[colIndex := newValue]\<rparr>;
             current' = original\<lparr>rows := (rows original)[k := row']\<rparr>
         in (\<exists>h'. handleCellChange (rid (rows original ! k)) colIndex newValue
                     \<lparr>originalData = original, currentData = original, hasChanges = h\<rparr>
                   = Some \<lparr>originalData = original, currentData = current', hasChanges = h'\<rparr>)
            \<and> calculateChanges original current' =
                [\<lparr>ctype = modified, description = row_label k row'\<rparr>])"
    by (simp add: Let_def single_edit_changes handleCellChange_loaded)
  ultimately show ?thesis
    using change_kinds_by_rows [of original current] by blast
qed

theorem calculateChanges_by_id_sets_witness:
  "map ctype (calculateChanges
       \<lparr>headers = [js ''Date'', js ''RoomNumber''],
        rows = [\<lparr>rid = 0, values = [js ''1'', js ''101-150'']\<rparr>,
                \<lparr>rid = 1, values = [js ''2'', js ''151-200'']\<rparr>]\<rparr>
       \<lparr>headers = [js ''Date'', js ''RoomNumber''],
        rows = [\<lparr>rid = 0, values = [js ''1'', js ''101-199'']\<rparr>,
                \<lparr>rid = 2, values = [js '''', js '''']\<rparr>]\<rparr>)
     = [added, deleted, modified]
   \<and> (\<exists>h'. handleCellChange 0 1 (js ''101-199'')
         \<lparr>originalData = \<lparr>headers = [js ''Date'', js ''RoomNumber''],
            rows = [\<lparr>rid = 0, values = [js ''1'', js ''101-150'']\<rparr>,
                    \<lparr>rid = 1, values = [js ''2'', js ''151-200'']\<rparr>]\<rparr>,
          currentData = \<lparr>headers = [js ''Date'', js ''RoomNumber''],
            rows = [\<lparr>rid = 0, values = [js ''1'', js ''101-150'']\<rparr>,
                    \<lparr>rid = 1, values = [js ''2'', js ''151-200'']\<rparr>]\<rparr>,
          hasChanges = False\<rparr>
       = Some \<lparr>originalData = \<lparr>headers = [js ''Date'', js ''RoomNumber''],
            rows = [\<lparr>rid = 0, values = [js ''1'', js ''101-150'']\<rparr>,
                    \<lparr>rid = 1, values = [js ''2'', js ''151-200'']\<rparr>]\<rparr>,
          currentData = \<lparr>headers = [js ''Date'', js ''RoomNumber''],
            rows = [\<lparr>rid = 0, values = [js ''1'', js ''101-199'']\<rparr>,
                    \<lparr>rid = 1, values = [js ''2'', js ''151-200'']\<rparr>]\<rparr>,
          hasChanges = h'\<rparr>)
   \<and> calculateChanges
       \<lparr>headers = [js ''Date'', js ''RoomNumber''],
        rows = [\<lparr>rid = 0, values = [js ''1'', js ''101-150'']\<rparr>,
                \<lparr>rid = 1, values = [js ''2'', js ''151-200'']\<rparr>]\<rparr>
       \<lparr>headers = [js ''Date'', js ''RoomNumber''],
        rows = [\<lparr>rid = 0, values = [js ''1'', js ''101-199'']\<rparr>,
                \<lparr>rid = 1, values = [js ''2'', js ''151-200'']\<rparr>]\<rparr>
     = [\<lparr>ctype = modified, description = js ''Row 1: 1, 101-199...''\<rparr>]"
proof -
  let ?O = "\<lparr>headers = [js ''Date'', js ''RoomNumber''],
        rows = [\<lparr>rid = 0, values = [js ''1'', js ''101-150'']\<rparr>,
                \<lparr>rid = 1, values = [js ''2'', js ''151-200'']\<rparr>]\<rparr>"
  let ?C = "\<lparr>headers = [js ''Date'', js ''RoomNumber''],
        rows = [\<lparr>rid = 0, values = [js ''1'', js ''101-199'']\<rparr>,
                \<lparr>rid = 2, values = [js '''', js '''']\<rparr>]\<rparr>"
  have d1: "distinct (map rid (rows ?O))" by simp
  have d2: "distinct (map rid (rows ?C))" by simp
  have c1: "set (map rid (rows ?C)) - set (map rid (rows ?O)) = {2}" by auto
  have c2: "set (map rid (rows ?O)) - set (map rid (rows ?C)) = {1}" by auto
  have c3: "{i \<in> set (map rid (rows ?C)) \<inter> set (map rid (rows ?O)).
              values_of ?C i \<noteq> values_of ?O i} = {0}"
    by (auto simp: values_of_def js_def)
  have pre: "distinct (map rid (rows ?O))
      \<and> 0 < length (rows ?O) \<and> 1 < length (values (rows ?O ! 0))
      \<and> js ''101-199'' \<noteq> values (rows ?O ! 0) ! 1"
    by (simp add: js_def)
  note changes = calculateChanges_by_id_sets [where original = ?O and current = ?C and k = 0
      and colIndex = 1 and newValue = "js ''101-199''" and h = False]
  have "map ctype (calculateChanges ?O ?C) =
      replicate (card (set (map rid (rows ?C)) - set (map rid (rows ?O)))) added @
      replicate (card (set (map rid (rows ?O)) - set (map rid (rows ?C)))) deleted @
      replicate (card {i \<in> set (map rid (rows ?C)) \<inter> set (map rid (rows ?O)).
                       values_of ?C i \<noteq> values_of ?O i}) modified"
    using changes d1 d2 by blast
  then have kinds: "map ctype (calculateChanges ?O ?C) = [added, deleted, modified]"
    unfolding c1 c2 c3 by simp
  have "let row' = (rows ?O ! 0)\<lparr>values := (values (rows ?O ! 0))[1 := js ''101-199'']\<rparr>;
            current' = ?O\<lparr>rows := (rows ?O)[0 := row']\<rparr>
        in (\<exists>h'. handleCellChange (rid (rows ?O ! 0)) 1 (js ''101-199'')
                    \<lparr>originalData = ?O, currentData = ?O, hasChanges = False\<rparr>
                  = Some \<lparr>originalData = ?O, currentData = current', hasChanges = h'\<rparr>)
           \<and> calculateChanges ?O current' =
               [\<lparr>ctype = modified, description = row_label 0 row'\<rparr>]"
    using changes pre by blast
  then show ?thesis
    using kinds by (simp add: Let_def js_def decimal.simps)
qed


section \<open>Serializing and parsing again\<close>

lemma parse_loop_quoted_body:
  "t = [] \<or> hd t \<noteq> QUOTE \<Longrightarrow>
   parse_loop (concat (map (\<lambda>c. if c = QUOTE then [QUOTE, QUOTE] else [c]) fld) @ QUOTE # t)
       True f r R
     = parse_loop t False (f @ fld) r R"
proof (induction fld arbitrary: f)
  case Nil
  then show ?case by (simp add: parse_loop_quote_close)
next
  case (Cons c fld)
  show ?case
  proof (cases "c = QUOTE")
    case True
    then show ?thesis using Cons.IH [OF Cons.prems, of "f @ [QUOTE]"]
      by (simp add: parse_loop_quote_escaped)
  next
    case False
    then show ?thesis using Cons.IH [OF Cons.prems, of "f @ [c]"]
      by (simp add: parse_loop_regular_quoted)
  qed
qed

lemma parse_loop_plain_body:
  "COMMA \<notin> set fld \<Longrightarrow> QUOTE \<notin> set fld \<Longrightarrow> LF \<notin> set fld \<Longrightarrow> CR \<notin> set fld \<Longrightarrow>
   parse_loop (fld @ t) False f r R = parse_loop t False (f @ fld) r R"
proof (induction fld arbitrary: f)
  case Nil
  show ?case by simp
next
  case (Cons c fld)
  have "parse_loop (c # fld @ t) False f r R = parse_loop (fld @ t) False (f @ [c]) r R"
    using Cons.prems by (intro parse_loop_regular) auto
  also have "\<dots> = parse_loop t False ((f @ [c]) @ fld) r R"
    using Cons.prems by (intro Cons.IH) auto
  finally show ?case by simp
qed

lemma parse_loop_field:
  assumes "t = [] \<or> hd t \<noteq> QUOTE"
  shows "parse_loop (escapeCSVField fld @ t) False f r R = parse_loop t False (f @ fld) r R"
proof (cases "COMMA \<in> set fld \<or> QUOTE \<in> set fld \<or> LF \<in> set fld \<or> CR \<in> set fld")
  case True
  then have "escapeCSVField fld @ t =
      QUOTE # concat (map (\<lambda>c. if c = QUOTE then [QUOTE, QUOTE] else [c]) fld) @ QUOTE # t"
    by (simp add: escapeCSVField_def)
  then show ?thesis
    by (simp only: parse_loop_quote_open parse_loop_quoted_body [OF assms])
next
  case False
  then have "escapeCSVField fld = fld" by (simp add: escapeCSVField_def)
  then show ?thesis using False by (simp add: parse_loop_plain_body)
qed

lemma parse_loop_fields:
  "fs \<noteq> [] \<Longrightarrow>
   parse_loop (join [COMMA] (map escapeCSVField fs) @ LF # t) False [] r R
     = parse_loop (LF # t) False (last fs) (r @ map trim (butlast fs)) R"
proof (induction fs arbitrary: r)
  case Nil
  then show ?case by simp
next
  case (Cons x fs)
  show ?case
  proof (cases fs)
    case Nil
    then show ?thesis using parse_loop_field [of "LF # t" x "[]" r R] by simp
  next
    case (Cons y ys)
    have "parse_loop (join [COMMA] (map escapeCSVField (x # fs)) @ LF # t) False [] r R
        = parse_loop (escapeCSVField x @ COMMA # join [COMMA] (map escapeCSVField fs) @ LF # t)
            False [] r R"
      by (simp add: Cons)
    also have "\<dots> = parse_loop (COMMA # join [COMMA] (map escapeCSVField fs) @ LF # t)
            False x r R"
      using parse_loop_field [of "COMMA # join [COMMA] (map escapeCSVField fs) @ LF # t" x "[]" r R]
      by simp
    also have "\<dots> = parse_loop (join [COMMA] (map escapeCSVField fs) @ LF # t)
            False [] (r @ [trim x]) R"
      by (rule parse_loop_comma)
    also have "\<dots> = parse_loop (LF # t) False (last fs) ((r @ [trim x]) @ map trim (butlast fs)) R"
      by (rule Cons.IH) (simp add: Cons)
    finally show ?thesis by (simp add: Cons)
  qed
qed

lemma trimmed_trim_id: "trimmed s \<Longrightarrow> trim s = s"
proof (cases "s = []")
  case True
  then show ?thesis by (simp add: trim_def)
next
  case False
  assume "trimmed s"
  then have h: "\<not> is_ws (hd s)" and l: "\<not> is_ws (last s)"
    using False by (simp_all add: trimmed_def)
  have 1: "dropWhile is_ws s = s" using h False by (cases s) simp_all
  have "\<not> is_ws (hd (rev s))" using l False by (simp add: hd_rev)
  then have 2: "dropWhile is_ws (rev s) = rev s" using False by (cases "rev s") simp_all
  show ?thesis by (simp add: trim_def 1 2)
qed

lemma parse_loop_line:
  assumes "all_trimmed fs" and "\<exists>f \<in> set fs. f \<noteq> []"
  shows "parse_loop (join [COMMA] (map escapeCSVField fs) @ LF # t) False [] [] R
           = parse_loop t False [] [] (R @ [fs])"
proof -
  have ne: "fs \<noteq> []" using assms(2) by auto
  have tr: "map trim fs = fs"
    using assms(1) by (simp add: all_trimmed_def trimmed_trim_id map_idI)
  then have rec: "map trim (butlast fs) @ [trim (last fs)] = fs"
    using ne by (metis append_butlast_last_id last_map map_butlast)
  have cond: "trim (last fs) \<noteq> [] \<or> map trim (butlast fs) \<noteq> []"
  proof (cases "butlast fs = []")
    case True
    then have "fs = [last fs]" using ne by (metis append_butlast_last_id append_Nil)
    then have "last fs \<noteq> []" using assms(2) by (metis empty_iff empty_set set_ConsD)
    moreover have "trim (last fs) = last fs"
      using assms(1) ne by (simp add: all_trimmed_def trimmed_trim_id)
    ultimately show ?thesis by simp
  next
    case False
    then show ?thesis by simp
  qed
  have "parse_loop (join [COMMA] (map escapeCSVField fs) @ LF # t) False [] [] R
      = parse_loop (LF # t) False (last fs) ([] @ map trim (butlast fs)) R"
    by (rule parse_loop_fields [OF ne])
  also have "\<dots> = parse_loop t False [] [] (R @ [fs])"
    using cond assms(2) by (subst parse_loop_newline) (simp_all add: rec)
  finally show ?thesis .
qed

lemma generateCSVContent_lines:
  "generateCSVContent t =
     (join [COMMA] (map escapeCSVField (headers t)) @ [LF]) @
     concat (map (\<lambda>row. join [COMMA] (map escapeCSVField (values row)) @ [LF]) (rows t))"
  unfolding generateCSVContent_def
  by (rule foldl_push) simp

lemma parse_loop_lines:
  "\<forall>r \<in> set rs. all_trimmed (values r) \<and> (\<exists>f \<in> set (values r). f \<noteq> []) \<Longrightarrow>
   parse_loop (concat (map (\<lambda>row. join [COMMA] (map escapeCSVField (values row)) @ [LF]) rs))
       False [] [] R
     = R @ map values rs"
proof (induction rs arbitrary: R)
  case Nil
  show ?case by (simp add: parse_loop.simps(1) trim_def)
next
  case (Cons r rs)
  have "parse_loop (join [COMMA] (map escapeCSVField (values r)) @ LF #
          concat (map (\<lambda>row. join [COMMA] (map escapeCSVField (values row)) @ [LF]) rs))
          False [] [] R
      = parse_loop (concat (map (\<lambda>row. join [COMMA] (map escapeCSVField (values row)) @ [LF]) rs))
          False [] [] (R @ [values r])"
    using Cons.prems by (intro parse_loop_line) simp_all
  also have "\<dots> = (R @ [values r]) @ map values rs"
    using Cons.prems by (intro Cons.IH) simp
  finally show ?case by simp
qed

lemma parseCSVRecords_generate:
  assumes "all_trimmed (headers t)" and "\<exists>h \<in> set (headers t). h \<noteq> []"
    and "\<forall>r \<in> set (rows t). all_trimmed (values r) \<and> (\<exists>f \<in> set (values r). f \<noteq> [])"
  shows "parseCSVRecords (generateCSVContent t) = headers t # map values (rows t)"
proof -
  let ?body = "concat (map (\<lambda>row. join [COMMA] (map escapeCSVField (values row)) @ [LF]) (rows t))"
  have "parseCSVRecords (generateCSVContent t)
      = parse_loop (join [COMMA] (map escapeCSVField (headers t)) @ LF # ?body) False [] [] []"
    by (simp add: parseCSVRecords_def generateCSVContent_lines)
  also have "\<dots> = parse_loop ?body False [] [] ([] @ [headers t])"
    using assms(1,2) by (rule parse_loop_line)
  also have "\<dots> = ([] @ [headers t]) @ map values (rows t)"
    using assms(3) by (rule parse_loop_lines)
  finally show ?thesis by simp
qed

lemma parseCSVRecords_generate_empty:
  assumes "headers t = []" and "rows t = []"
  shows "parseCSVRecords (generateCSVContent t) = []"
  using assms
  by (simp add: parseCSVRecords_def generateCSVContent_lines parse_loop_newline
      parse_loop.simps(1) trim_def)

lemma renumber_parsed:
  "\<forall>r \<in> set rs. n \<le> length (values r) \<Longrightarrow>
   map (\<lambda>(index, record). \<lparr>rid = int index, values = pad_record n record\<rparr>)
       (enumerate k (map values rs))
     = map (\<lambda>(index, r). r\<lparr>rid := int index\<rparr>) (enumerate k rs)"
  by (induction rs arbitrary: k) (simp_all add: pad_record_def)

lemma renumber_id:
  assumes "map rid rs = map int [0..<length rs]"
  shows "renumber rs = rs"
proof (rule nth_equalityI)
  show "length (renumber rs) = length rs" by (simp add: renumber_def)
next
  fix i assume "i < length (renumber rs)"
  then have i: "i < length rs" by (simp add: renumber_def)
  have "map rid rs ! i = map int [0..<length rs] ! i" by (simp only: assms)
  then have "rid (rs ! i) = int i" using i by simp
  then show "renumber rs ! i = rs ! i"
    using i by (simp add: renumber_def nth_enumerate_eq)
qed

text \<open>
  C1, as the code has it. Parsing numbers the rows by position, drops a record whose
  fields are all empty (the header record too) and pads a short record. So for a table
  whose header has a non-empty field (or which has no header and no row), whose rows
  each have a non-empty field and at least as many values as there are headers, and
  whose strings have no white space at either end, parsing the serialized text gives
  the same headers and the same value sequences in the same order, with the row ids
  0, 1, 2, ... by position; it gives the table itself when these are its row ids.
\<close>

theorem parse_generate_round_trip:
  assumes hdr: "(\<exists>h \<in> set (headers t). h \<noteq> []) \<or> (headers t = [] \<and> rows t = [])"
    and htr: "\<forall>h \<in> set (headers t). trimmed h"
    and rws: "\<forall>r \<in> set (rows t).
        (\<exists>v \<in> set (values r). v \<noteq> []) \<and> (\<forall>v \<in> set (values r). trimmed v)
        \<and> length (headers t) \<le> length (values r)"
  shows "parseCSV (generateCSVContent t) = t\<lparr>rows := renumber (rows t)\<rparr>
     \<and> (map rid (rows t) = map int [0..<length (rows t)] \<longrightarrow>
          parseCSV (generateCSVContent t) = t)"
proof -
  have main: "parseCSV (generateCSVContent t) = t\<lparr>rows := renumber (rows t)\<rparr>"
  proof (cases "\<exists>h \<in> set (headers t). h \<noteq> []")
    case True
    have "parseCSVRecords (generateCSVContent t) = headers t # map values (rows t)"
      using htr True rws by (intro parseCSVRecords_generate) (simp_all add: all_trimmed_def)
    moreover have "map (\<lambda>(index, record).
          \<lparr>rid = int index, values = pad_record (length (headers t)) record\<rparr>)
          (enumerate 0 (map values (rows t))) = renumber (rows t)"
      unfolding renumber_def using rws by (intro renumber_parsed) simp
    ultimately show ?thesis by (simp add: parseCSV_def)
  next
    case False
    then have e: "headers t = []" "rows t = []" using hdr by auto
    then have "parseCSVRecords (generateCSVContent t) = []"
      by (rule parseCSVRecords_generate_empty)
    then show ?thesis using e by (simp add: parseCSV_def renumber_def)
  qed
  moreover have "parseCSV (generateCSVContent t) = t"
    if "map rid (rows t) = map int [0..<length (rows t)]"
    using main renumber_id [OF that] by simp
  ultimately show ?thesis by blast
qed

theorem parse_generate_round_trip_witness:
  "generateCSVContent
       \<lparr>headers = [js ''Day'', js ''Lunch''],
        rows = [\<lparr>rid = 0, values = [js ''Mon'', js ''Rice, dal'']\<rparr>,
                \<lparr>rid = 1, values = [js ''Tue'', js ''say \"hi\"'']\<rparr>]\<rparr>
     = js ''Day,Lunch\<newline>Mon,\"Rice, dal\"\<newline>Tue,\"say \"\"hi\"\"\"\<newline>''
   \<and> parseCSV (generateCSVContent
       \<lparr>headers = [js ''Day'', js ''Lunch''],
        rows = [\<lparr>rid = 0, values = [js ''Mon'', js ''Rice, dal'']\<rparr>,
                \<lparr>rid = 1, values = [js ''Tue'', js ''say \"hi\"'']\<rparr>]\<rparr>)
     = \<lparr>headers = [js ''Day'', js ''Lunch''],
        rows = [\<lparr>rid = 0, values = [js ''Mon'', js ''Rice, dal'']\<rparr>,
                \<lparr>rid = 1, values = [js ''Tue'', js ''say \"hi\"'']\<rparr>]\<rparr>"
proof -
  let ?t = "\<lparr>headers = [js ''Day'', js ''Lunch''],
        rows = [\<lparr>rid = 0, values = [js ''Mon'', js ''Rice, dal'']\<rparr>,
                \<lparr>rid = 1, values = [js ''Tue'', js ''say \"hi\"'']\<rparr>]\<rparr>"
  have h1: "(\<exists>h \<in> set (headers ?t). h \<noteq> []) \<or> (headers ?t = [] \<and> rows ?t = [])"
    by (simp add: js_def)
  have h2: "\<forall>h \<in> set (headers ?t). trimmed h"
    by (simp add: trimmed_def is_ws_def js_def)
  have h3: "\<forall>r \<in> set (rows ?t).
        (\<exists>v \<in> set (values r). v \<noteq> []) \<and> (\<forall>v \<in> set (values r). trimmed v)
        \<and> length (headers ?t) \<le> length (values r)"
    by (simp add: trimmed_def is_ws_def js_def)
  have ids: "map rid (rows ?t) = map int [0..<length (rows ?t)]"
    by (simp add: upt_rec)
  have csv: "generateCSVContent ?t =
      js ''Day,Lunch\<newline>Mon,\"Rice, dal\"\<newline>Tue,\"say \"\"hi\"\"\"\<newline>''"
    by (simp add: generateCSVContent_def escapeCSVField_def js_def)
  from parse_generate_round_trip [OF h1 h2 h3] ids
  have "parseCSV (generateCSVContent ?t) = ?t" by blast
  with csv show ?thesis by simp
qed

text \<open>
  The claim as it is written fails in three ways. A table with the header h and one
  row of id 1 (what is left of a two-row file once its first row is deleted) comes back
  with the row id 0. A table whose only header is the empty string loses its header
  record, and its first row becomes the header. A row with fewer values than there are
  headers comes back padded. In each table every row has a non-empty field and no
  string has white space at either end.
\<close>

theorem round_trip_changes_table:
  "parseCSV (generateCSVContent \<lparr>headers = [js ''h''], rows = [\<lparr>rid = 1, values = [js ''a'']\<rparr>]\<rparr>)
     = \<lparr>headers = [js ''h''], rows = [\<lparr>rid = 0, values = [js ''a'']\<rparr>]\<rparr>
   \<and> parseCSV (generateCSVContent \<lparr>headers = [js ''h''], rows = [\<lparr>rid = 1, values = [js ''a'']\<rparr>]\<rparr>)
     \<noteq> \<lparr>headers = [js ''h''], rows = [\<lparr>rid = 1, values = [js ''a'']\<rparr>]\<rparr>
   \<and> trimmed (js ''h'') \<and> trimmed (js ''a'') \<and> js ''a'' \<noteq> []
   \<and> parseCSV (generateCSVContent \<lparr>headers = [js ''''], rows = [\<lparr>rid = 0, values = [js ''a'']\<rparr>]\<rparr>)
     = \<lparr>headers = [js ''a''], rows = []\<rparr>
   \<and> trimmed (js '''')
   \<and> parseCSV (generateCSVContent
        \<lparr>headers = [js ''h'', js ''g''], rows = [\<lparr>rid = 0, values = [js ''a'']\<rparr>]\<rparr>)
     = \<lparr>headers = [js ''h'', js ''g''], rows = [\<lparr>rid = 0, values = [js ''a'', js '''']\<rparr>]\<rparr>
   \<and> trimmed (js ''g'')"
  by (simp add: parseCSV_def parseCSVRecords_def parse_loop.simps generateCSVContent_def
      escapeCSVField_def js_def trim_def is_ws_def pad_record_def enumerate_eq_zip upt_rec
      trimmed_def)

end
